theory Spec2Isabelle
  imports Main "HOL-Library.Sublist" "HOL-Library.Monad_Syntax"
begin

section \<open>The page: a snapshot of the DOM\<close>

text \<open>
  An element is a JavaScript object; \<open>eid\<close> is its identity (\<open>===\<close> on elements is
  equality of \<open>eid\<close>). The store lists every live element in document order together with
  its nesting level: the \<open>parentElement\<close> of an element is the nearest element before it
  whose level is smaller. The first tree of this forest is the document, the later trees
  are detached fragments. Strings are ASCII.
\<close>

record element =
  eid :: nat
  level :: nat
  tagName :: string
  elemId :: string
  classList :: "string list"
  attributes :: "(string \<times> string) list"

type_synonym page = "element list"

text \<open>A JavaScript value handed to the selectors: \<open>null\<close>, an element, or anything else.\<close>

datatype jsval = Null | NonElement | Element nat

text \<open>\<open>locate x [] pg\<close> finds the element \<open>x\<close> and the elements before it, nearest first.\<close>

fun locate :: "nat \<Rightarrow> element list \<Rightarrow> page \<Rightarrow> (element \<times> element list) option" where
  "locate x before [] = None"
| "locate x before (e # es) =
     (if eid e = x then Some (e, before) else locate x (e # before) es)"

text \<open>Of the elements before an element of level \<open>l\<close>, those that enclose it, innermost first.\<close>

fun enclosing :: "nat \<Rightarrow> element list \<Rightarrow> element list" where
  "enclosing l [] = []"
| "enclosing l (e # es) =
     (if level e < l then e # enclosing (level e) es else enclosing l es)"

definition lookup :: "page \<Rightarrow> nat \<Rightarrow> element option" where
  "lookup pg x = map_option fst (locate x [] pg)"

text \<open>
  \<open>el.parentElement\<close>, its \<open>parentElement\<close>, and so on up to the root: what a loop
  \<open>current = current.parentElement\<close> visits.
\<close>

definition ancestorsOf :: "page \<Rightarrow> nat \<Rightarrow> element list" where
  "ancestorsOf pg x =
     (case locate x [] pg of None \<Rightarrow> [] | Some (e, before) \<Rightarrow> enclosing (level e) before)"

definition hasClass :: "string \<Rightarrow> element \<Rightarrow> bool" where
  "hasClass c e = (c \<in> set (classList e))"

text \<open>
  \<open>el.getAttribute(name)\<close>. The value of the \<open>id\<close> attribute is held in \<open>elemId\<close>,
  which is \<open>el.id\<close>: empty when the element has no \<open>id\<close> attribute and when it has an
  empty one. An entry for \<open>id\<close> in \<open>attributes\<close> says that the attribute is present.
\<close>

definition getAttribute :: "element \<Rightarrow> string \<Rightarrow> string option" where
  "getAttribute e n =
     (if n = ''id''
      then (if elemId e \<noteq> [] then Some (elemId e)
            else if map_of (attributes e) ''id'' \<noteq> None then Some [] else None)
      else map_of (attributes e) n)"

text \<open>\<open>toLowerCase\<close> on ASCII: the letters A to Z change, every other character stays.\<close>

definition lowerChar :: "char \<Rightarrow> char" where
  "lowerChar c =
     (case map_of (zip ''ABCDEFGHIJKLMNOPQRSTUVWXYZ'' ''abcdefghijklmnopqrstuvwxyz'') c of
        Some l \<Rightarrow> l
      | None \<Rightarrow> c)"

definition toLowerCase :: "string \<Rightarrow> string" where
  "toLowerCase s = map lowerChar s"

section \<open>selectors.js\<close>

text \<open>The memoised result of \<open>detectRedditVersion\<close>: \<open>'old'\<close> or \<open>'new'\<close>.\<close>

datatype layout = OldReddit | NewReddit

fun isCommentEl :: "layout \<Rightarrow> element \<Rightarrow> bool" where
  "isCommentEl OldReddit el = (hasClass ''thing'' el \<and> hasClass ''comment'' el)"
| "isCommentEl NewReddit el =
     (toLowerCase (tagName el) = ''shreddit-comment'' \<or>
      getAttribute el ''data-testid'' = Some ''comment'')"

declare isCommentEl.simps [simp del]

text \<open>
  \<open>isCommentThing(el)\<close>: false for \<open>null\<close> and for a value that is no element. A handle
  that names no live element is treated as no element.
\<close>

definition isCommentThing :: "layout \<Rightarrow> page \<Rightarrow> jsval \<Rightarrow> bool" where
  "isCommentThing L pg v =
     (case v of
        Element x \<Rightarrow> (case lookup pg x of Some el \<Rightarrow> isCommentEl L el | None \<Rightarrow> False)
      | _ \<Rightarrow> False)"

text \<open>The loop of \<open>OldReddit.getParentThing\<close>, over \<open>current\<close> and the elements above it.\<close>

fun parentLoopOld :: "element list \<Rightarrow> element option" where
  "parentLoopOld [] = None"
| "parentLoopOld (current # up) =
     (case (if hasClass ''child'' current
            then (case up of
                    [] \<Rightarrow> None
                  | parentComment # _ \<Rightarrow>
                      if isCommentEl OldReddit parentComment then Some parentComment else None)
            else None) of
        Some parentComment \<Rightarrow> Some parentComment
      | None \<Rightarrow> if hasClass ''siteTable'' current then None else parentLoopOld up)"

text \<open>The loop of \<open>NewReddit.getParentThing\<close>.\<close>

fun parentLoopNew :: "element list \<Rightarrow> element option" where
  "parentLoopNew [] = None"
| "parentLoopNew (current # up) =
     (if isCommentEl NewReddit current then Some current
      else if toLowerCase (tagName current) = ''shreddit-comment-tree'' then None
      else parentLoopNew up)"

fun parentLoop :: "layout \<Rightarrow> element list \<Rightarrow> element option" where
  "parentLoop OldReddit up = parentLoopOld up"
| "parentLoop NewReddit up = parentLoopNew up"

definition getParentThing :: "layout \<Rightarrow> page \<Rightarrow> jsval \<Rightarrow> nat option" where
  "getParentThing L pg v =
     (if \<not> isCommentThing L pg v then None
      else (case v of
              Element x \<Rightarrow> map_option eid (parentLoop L (ancestorsOf pg x))
            | _ \<Rightarrow> None))"

subsection \<open>getIndentDepth\<close>

text \<open>A JavaScript number as far as the depth computation needs it: an integer or \<open>NaN\<close>.\<close>

datatype jsnum = NaN | Num int

text \<open>The ASCII white space and line ends: tab, line feed, vertical tab, form feed, carriage return, space.\<close>

definition isWhiteSpace :: "char \<Rightarrow> bool" where
  "isWhiteSpace c = (c \<in> set [CHR 0x09, CHR 0x0A, CHR 0x0B, CHR 0x0C, CHR 0x0D, CHR '' ''])"

definition isDigit :: "char \<Rightarrow> bool" where
  "isDigit c = (c \<in> set ''0123456789'')"

definition digitOf :: "char \<Rightarrow> int" where
  "digitOf c =
     (case map_of (zip ''0123456789'' [0, 1, 2, 3, 4, 5, 6, 7, 8, 9]) c of
        Some n \<Rightarrow> n
      | None \<Rightarrow> 0)"

definition digitsValue :: "string \<Rightarrow> int" where
  "digitsValue ds = foldl (\<lambda>n c. 10 * n + digitOf c) 0 ds"

text \<open>
  \<open>parseInt(s, 10)\<close>: leading white space is skipped, then an optional sign, then the
  longest run of decimal digits is read; \<open>NaN\<close> when there is no digit. The value is
  the integer that the digits denote. \<open>parseInt\<close> returns the double nearest to it, which
  is the same number as long as it is below \<open>2^53\<close>; a depth that is the number of elements
  around a comment is in that range.
\<close>

definition parseInt10 :: "string \<Rightarrow> jsnum" where
  "parseInt10 s =
     (let t = dropWhile isWhiteSpace s;
          negative = (case t of [] \<Rightarrow> False | c # _ \<Rightarrow> c = CHR ''-'');
          u = (case t of [] \<Rightarrow> [] | c # r \<Rightarrow> if c = CHR ''-'' \<or> c = CHR ''+'' then r else t);
          ds = takeWhile isDigit u
      in if ds = [] then NaN
         else Num (if negative then - digitsValue ds else digitsValue ds))"

text \<open>\<open>depth++\<close>; \<open>NaN\<close> stays \<open>NaN\<close>.\<close>

fun increment :: "jsnum \<Rightarrow> jsnum" where
  "increment NaN = NaN"
| "increment (Num n) = Num (n + 1)"

text \<open>\<open>!depth\<close>: true for 0 and for \<open>NaN\<close>.\<close>

fun falsy :: "jsnum \<Rightarrow> bool" where
  "falsy NaN = True"
| "falsy (Num n) = (n = 0)"

text \<open>The loop of \<open>OldReddit.getIndentDepth\<close>, started at \<open>el.parentElement\<close>.\<close>

fun depthLoopOld :: "element list \<Rightarrow> int \<Rightarrow> int" where
  "depthLoopOld [] depth = depth"
| "depthLoopOld (current # up) depth =
     (if hasClass ''siteTable'' current \<and> hasClass ''nestedlisting'' current then depth
      else if prefix ''siteTable'' (elemId current) then depth
      else depthLoopOld up (if hasClass ''child'' current then depth + 1 else depth))"

text \<open>The loop of \<open>NewReddit.getIndentDepth\<close>.\<close>

fun depthLoopNew :: "element list \<Rightarrow> jsnum \<Rightarrow> jsnum" where
  "depthLoopNew [] depth = depth"
| "depthLoopNew (current # up) depth =
     (let depth' = (if toLowerCase (tagName current) = ''shreddit-comment''
                    then increment depth else depth)
      in if toLowerCase (tagName current) = ''shreddit-comment-tree'' then depth'
         else depthLoopNew up depth')"

text \<open>\<open>parseInt(el.getAttribute('depth') || '0', 10)\<close>\<close>

definition depthAttribute :: "element \<Rightarrow> jsnum" where
  "depthAttribute el =
     parseInt10 (case getAttribute el ''depth'' of
                   None \<Rightarrow> ''0''
                 | Some v \<Rightarrow> if v = [] then ''0'' else v)"

text \<open>What \<open>getIndentDepth\<close> computes for a comment when \<open>depthCache\<close> has no entry.\<close>

fun indentDepthOf :: "layout \<Rightarrow> element \<Rightarrow> element list \<Rightarrow> jsnum" where
  "indentDepthOf OldReddit el up = Num (depthLoopOld up 0)"
| "indentDepthOf NewReddit el up =
     (let depth = depthAttribute el
      in if falsy depth then depthLoopNew up depth else depth)"

definition getIndentDepth :: "layout \<Rightarrow> page \<Rightarrow> (nat \<rightharpoonup> jsnum) \<Rightarrow> jsval \<Rightarrow> jsnum \<times> (nat \<rightharpoonup> jsnum)" where
  "getIndentDepth L pg depthCache v =
     (if \<not> isCommentThing L pg v then (Num (- 1), depthCache)
      else (case v of
              Element x \<Rightarrow>
                (case depthCache x of
                   Some d \<Rightarrow> (d, depthCache)
                 | None \<Rightarrow>
                     (case lookup pg x of
                        None \<Rightarrow> (Num (- 1), depthCache)
                      | Some el \<Rightarrow>
                          (let depth = indentDepthOf L el (ancestorsOf pg x)
                           in (depth, depthCache(x \<mapsto> depth)))))
            | _ \<Rightarrow> (Num (- 1), depthCache)))"

section \<open>ancestors.js\<close>

text \<open>
  The two WeakMaps of the module, and the arrays they and the callers hold. An array is an
  object: \<open>arrays\<close> maps its address to its contents, \<open>nextAddr\<close> is the next unused
  address. \<open>chainCache\<close> maps an element to the address of its cached chain.
\<close>

record anc_state =
  parentCache :: "nat \<rightharpoonup> nat option"
  chainCache :: "nat \<rightharpoonup> nat"
  arrays :: "nat \<Rightarrow> nat list"
  nextAddr :: nat

text \<open>A new array object with the given contents.\<close>

definition newArray :: "nat list \<Rightarrow> anc_state \<Rightarrow> nat \<times> anc_state" where
  "newArray xs s = (nextAddr s, s\<lparr>arrays := (arrays s)(nextAddr s := xs), nextAddr := Suc (nextAddr s)\<rparr>)"

definition getParentCached :: "layout \<Rightarrow> page \<Rightarrow> (nat \<rightharpoonup> nat option) \<Rightarrow> nat \<Rightarrow> nat option \<times> (nat \<rightharpoonup> nat option)" where
  "getParentCached L pg pc commentEl =
     (case pc commentEl of
        Some parent \<Rightarrow> (parent, pc)
      | None \<Rightarrow> (let parent = getParentThing L pg (Element commentEl)
                 in (parent, pc(commentEl \<mapsto> parent))))"

text \<open>
  The \<open>while (current)\<close> loop of \<open>computeAncestors\<close>; each round puts one element in
  front of \<open>chain\<close>. The loop has no cycle detection: where it does not end the value is
  \<open>None\<close>.
\<close>

partial_function (option) ancestorsLoop ::
  "layout \<Rightarrow> page \<Rightarrow> (nat \<rightharpoonup> nat option) \<Rightarrow> nat option \<Rightarrow> nat list \<Rightarrow> (nat list \<times> (nat \<rightharpoonup> nat option)) option" where
  "ancestorsLoop L pg pc current chain =
     (case current of
        None \<Rightarrow> Some (chain, pc)
      | Some c \<Rightarrow> (case getParentCached L pg pc c of
                     (parent, pc') \<Rightarrow> ancestorsLoop L pg pc' parent (c # chain)))"

text \<open>\<open>computeAncestors\<close> returns the address of a new array and the new state.\<close>

definition computeAncestors :: "layout \<Rightarrow> page \<Rightarrow> anc_state \<Rightarrow> jsval \<Rightarrow> (nat \<times> anc_state) option" where
  "computeAncestors L pg s commentEl =
     (if \<not> isCommentThing L pg commentEl then Some (newArray [] s)
      else (case commentEl of
              Element x \<Rightarrow>
                (case chainCache s x of
                   Some a \<Rightarrow> Some (newArray (arrays s a) s)
                 | None \<Rightarrow>
                     (case ancestorsLoop L pg (parentCache s) (Some x) [] of
                        None \<Rightarrow> None
                      | Some (chain, pc) \<Rightarrow>
                          (case newArray chain (s\<lparr>parentCache := pc\<rparr>) of
                             (a, s1) \<Rightarrow> Some (newArray chain (s1\<lparr>chainCache := (chainCache s1)(x \<mapsto> a)\<rparr>)))))
            | _ \<Rightarrow> Some (newArray [] s)))"

definition getDepth :: "layout \<Rightarrow> page \<Rightarrow> anc_state \<Rightarrow> jsval \<Rightarrow> (int \<times> anc_state) option" where
  "getDepth L pg s commentEl =
     (case computeAncestors L pg s commentEl of
        None \<Rightarrow> None
      | Some (chain, s') \<Rightarrow> Some (max 0 (int (length (arrays s' chain)) - 1), s'))"

definition getTopLevelAncestor :: "layout \<Rightarrow> page \<Rightarrow> anc_state \<Rightarrow> jsval \<Rightarrow> (nat option \<times> anc_state) option" where
  "getTopLevelAncestor L pg s commentEl =
     (case computeAncestors L pg s commentEl of
        None \<Rightarrow> None
      | Some (chain, s') \<Rightarrow>
          Some (case arrays s' chain of [] \<Rightarrow> None | el0 # _ \<Rightarrow> Some el0, s'))"

definition shareTopLevel :: "layout \<Rightarrow> page \<Rightarrow> anc_state \<Rightarrow> jsval \<Rightarrow> jsval \<Rightarrow> (bool \<times> anc_state) option" where
  "shareTopLevel L pg s comment1 comment2 =
     (case getTopLevelAncestor L pg s comment1 of
        None \<Rightarrow> None
      | Some (top1, s1) \<Rightarrow>
          (case getTopLevelAncestor L pg s1 comment2 of
             None \<Rightarrow> None
           | Some (top2, s2) \<Rightarrow> Some (top1 \<noteq> None \<and> top1 = top2, s2)))"

text \<open>
  The \<open>for\<close> loop of \<open>findCommonAncestor\<close> reads \<open>chain2\<close> from its last element to
  its first and returns the first element that is in \<open>set1\<close>.
\<close>

definition findCommonAncestor :: "layout \<Rightarrow> page \<Rightarrow> anc_state \<Rightarrow> jsval \<Rightarrow> jsval \<Rightarrow> (nat option \<times> anc_state) option" where
  "findCommonAncestor L pg s comment1 comment2 =
     (case computeAncestors L pg s comment1 of
        None \<Rightarrow> None
      | Some (chain1, s1) \<Rightarrow>
          (case computeAncestors L pg s1 comment2 of
             None \<Rightarrow> None
           | Some (chain2, s2) \<Rightarrow>
               (let set1 = set (arrays s2 chain1)
                in Some (find (\<lambda>el. el \<in> set1) (rev (arrays s2 chain2)), s2))))"

subsection \<open>What the caches hold on a page that does not change\<close>

text \<open>
  The chain of an element: the chain of its parent comment, then the element. The parent
  lies above the element in the page; the test on the number of enclosing elements makes
  that visible to the termination proof.
\<close>

function chainOf :: "layout \<Rightarrow> page \<Rightarrow> nat \<Rightarrow> nat list" where
  "chainOf L pg x =
     (case getParentThing L pg (Element x) of
        None \<Rightarrow> [x]
      | Some p \<Rightarrow>
          if length (ancestorsOf pg p) < length (ancestorsOf pg x)
          then chainOf L pg p @ [x] else [x])"
  by pat_completeness auto
termination
  by (relation "measure (\<lambda>(L, pg, x). length (ancestorsOf pg x))") auto

declare chainOf.simps [simp del]

text \<open>Every entry of \<open>parentCache\<close> is what \<open>getParentThing\<close> returns on this page.\<close>

definition parentsOk :: "layout \<Rightarrow> page \<Rightarrow> (nat \<rightharpoonup> nat option) \<Rightarrow> bool" where
  "parentsOk L pg pc = (\<forall>x p. pc x = Some p \<longrightarrow> p = getParentThing L pg (Element x))"

text \<open>
  The caches were filled on this page: the cached parents are the parents, and every
  cached chain is an allocated array that holds the chain of its element.
\<close>

definition cachesOk :: "layout \<Rightarrow> page \<Rightarrow> anc_state \<Rightarrow> bool" where
  "cachesOk L pg s =
     (parentsOk L pg (parentCache s) \<and>
      (\<forall>x a. chainCache s x = Some a \<longrightarrow> a < nextAddr s \<and> arrays s a = chainOf L pg x))"

text \<open>
  The weaker condition that the cached parent relation has no cycle: every cached parent
  is \<open>null\<close> or an element that encloses its child.
\<close>

definition parentsAbove :: "page \<Rightarrow> (nat \<rightharpoonup> nat option) \<Rightarrow> bool" where
  "parentsAbove pg pc = (\<forall>x p. pc x = Some (Some p) \<longrightarrow> p \<in> eid ` set (ancestorsOf pg x))"

text \<open>Every entry of \<open>depthCache\<close> is the depth computed on this page.\<close>

definition depthsOk :: "layout \<Rightarrow> page \<Rightarrow> (nat \<rightharpoonup> jsnum) \<Rightarrow> bool" where
  "depthsOk L pg depthCache =
     (\<forall>x d. depthCache x = Some d \<longrightarrow>
        (\<exists>el. lookup pg x = Some el \<and> d = indentDepthOf L el (ancestorsOf pg x)))"

text \<open>A caller overwrites the array at address \<open>a\<close>.\<close>

definition mutate :: "nat \<Rightarrow> nat list \<Rightarrow> anc_state \<Rightarrow> anc_state" where
  "mutate a ys s = s\<lparr>arrays := (arrays s)(a := ys)\<rparr>"

subsection \<open>Regular markup\<close>

text \<open>
  The element at which the depth walk of the old layout stops: classes \<open>siteTable\<close> and
  \<open>nestedlisting\<close>, or an id that starts with \<open>siteTable\<close>.
\<close>

definition boundaryOld :: "element \<Rightarrow> bool" where
  "boundaryOld c =
     ((hasClass ''siteTable'' c \<and> hasClass ''nestedlisting'' c) \<or> prefix ''siteTable'' (elemId c))"

text \<open>
  Regular markup above a comment of the old layout, read upwards to the first boundary:
  an element of class \<open>child\<close> lies directly in a comment that is no boundary and not of
  class \<open>child\<close>; no other element has class \<open>siteTable\<close>; the boundary has class
  \<open>siteTable\<close> and not class \<open>child\<close>.
\<close>

fun regularOld :: "element list \<Rightarrow> bool" where
  "regularOld [] = True"
| "regularOld [c] =
     (if boundaryOld c then hasClass ''siteTable'' c \<and> \<not> hasClass ''child'' c
      else \<not> hasClass ''child'' c \<and> \<not> hasClass ''siteTable'' c)"
| "regularOld (c # p # up) =
     (if boundaryOld c then hasClass ''siteTable'' c \<and> \<not> hasClass ''child'' c
      else if hasClass ''child'' c
      then isCommentEl OldReddit p \<and> \<not> boundaryOld p \<and> \<not> hasClass ''child'' p \<and> regularOld up
      else \<not> hasClass ''siteTable'' c \<and> regularOld (p # up))"

text \<open>
  Regular markup above a comment of the new layout, read upwards to the first
  \<open>shreddit-comment-tree\<close>: that element is not classified as a comment, and every element
  below it that is classified as a comment is a \<open>shreddit-comment\<close>.
\<close>

fun regularNewAbove :: "element list \<Rightarrow> bool" where
  "regularNewAbove [] = True"
| "regularNewAbove (c # up) =
     (if toLowerCase (tagName c) = ''shreddit-comment-tree'' then \<not> isCommentEl NewReddit c
      else (isCommentEl NewReddit c \<longrightarrow> toLowerCase (tagName c) = ''shreddit-comment'') \<and>
           regularNewAbove up)"

text \<open>
  Regular markup around the comment \<open>el\<close> with the elements \<open>up\<close> above it. In the new
  layout \<open>parseInt\<close> reads the \<open>depth\<close> attribute, or \<open>0\<close> in place of an absent or
  empty one, as a number, and that number is 0 or the number of \<open>shreddit-comment\<close> elements
  around the comment up to the first \<open>shreddit-comment-tree\<close>. An attribute that \<open>parseInt\<close>
  reads as \<open>NaN\<close> is not regular: \<open>getIndentDepth\<close> returns \<open>NaN\<close> for it.
\<close>

fun regular :: "layout \<Rightarrow> element \<Rightarrow> element list \<Rightarrow> bool" where
  "regular OldReddit el up = regularOld up"
| "regular NewReddit el up =
     (regularNewAbove up \<and>
      (depthAttribute el = Num 0 \<or> depthAttribute el = depthLoopNew up (Num 0)))"

text \<open>
  The number of parent steps that the chain walk takes from a comment with the elements
  \<open>up\<close> above it: each step is one run of the loop of \<open>getParentThing\<close>.
\<close>

fun hopsOld :: "element list \<Rightarrow> nat" where
  "hopsOld [] = 0"
| "hopsOld [c] = 0"
| "hopsOld (c # p # up) =
     (if hasClass ''child'' c \<and> isCommentEl OldReddit p then Suc (hopsOld up)
      else if hasClass ''siteTable'' c then 0
      else hopsOld (p # up))"

fun hopsNew :: "element list \<Rightarrow> nat" where
  "hopsNew [] = 0"
| "hopsNew (c # up) =
     (if isCommentEl NewReddit c then Suc (hopsNew up)
      else if toLowerCase (tagName c) = ''shreddit-comment-tree'' then 0
      else hopsNew up)"

fun hops :: "layout \<Rightarrow> element list \<Rightarrow> nat" where
  "hops OldReddit up = hopsOld up"
| "hops NewReddit up = hopsNew up"

text \<open>The contents of the array that a call returned.\<close>

definition returnedChain :: "(nat \<times> anc_state) option \<Rightarrow> nat list option" where
  "returnedChain r = (case r of None \<Rightarrow> None | Some (a, s) \<Rightarrow> Some (arrays s a))"

text \<open>The chain that \<open>computeAncestors\<close> is to return for a value: empty for no comment.\<close>

definition chainFor :: "layout \<Rightarrow> page \<Rightarrow> jsval \<Rightarrow> nat list" where
  "chainFor L pg v =
     (case v of Element x \<Rightarrow> if isCommentThing L pg v then chainOf L pg x else [] | _ \<Rightarrow> [])"

text \<open>The state of the module when it is loaded.\<close>

definition initialAncestors :: anc_state where
  "initialAncestors = \<lparr>parentCache = Map.empty, chainCache = Map.empty, arrays = (\<lambda>_. []), nextAddr = 0\<rparr>"

section \<open>activeComment.js\<close>

text \<open>An element and the elements above it: what \<open>closest\<close> and a walk from the element itself visit.\<close>

definition pathOf :: "page \<Rightarrow> nat \<Rightarrow> element list" where
  "pathOf pg x = (case lookup pg x of None \<Rightarrow> [] | Some el \<Rightarrow> el # ancestorsOf pg x)"

text \<open>\<open>target.closest(selector)\<close>: the first of the element and its ancestors that matches.\<close>

definition closest :: "(element \<Rightarrow> bool) \<Rightarrow> element list \<Rightarrow> element option" where
  "closest matches path = find matches path"

text \<open>The selector \<open>.md, [slot="comment"], [data-testid="comment"]\<close>\<close>

definition matchesBody :: "element \<Rightarrow> bool" where
  "matchesBody el =
     (hasClass ''md'' el \<or> getAttribute el ''slot'' = Some ''comment'' \<or>
      getAttribute el ''data-testid'' = Some ''comment'')"

text \<open>The selector \<open>.arrow, [data-click-id="upvote"], [data-click-id="downvote"]\<close>\<close>

definition matchesVote :: "element \<Rightarrow> bool" where
  "matchesVote el =
     (hasClass ''arrow'' el \<or> getAttribute el ''data-click-id'' = Some ''upvote'' \<or>
      getAttribute el ''data-click-id'' = Some ''downvote'')"

text \<open>The selector \<open>.expand, [data-testid="comment-collapse-toggle"]\<close>\<close>

definition matchesExpand :: "element \<Rightarrow> bool" where
  "matchesExpand el =
     (hasClass ''expand'' el \<or> getAttribute el ''data-testid'' = Some ''comment-collapse-toggle'')"

text \<open>The selector \<open>#ta-sticky-container\<close>\<close>

definition matchesSticky :: "element \<Rightarrow> bool" where
  "matchesSticky el = (elemId el = ''ta-sticky-container'')"

text \<open>
  The loop of \<open>findCommentFromTarget\<close> over the target and the elements above it;
  \<open>body\<close> is \<open>document.body\<close>.
\<close>

fun findCommentLoop :: "layout \<Rightarrow> nat option \<Rightarrow> element list \<Rightarrow> nat option" where
  "findCommentLoop L body [] = None"
| "findCommentLoop L body (current # up) =
     (if Some (eid current) = body then None
      else if isCommentEl L current then Some (eid current)
      else findCommentLoop L body up)"

definition findCommentFromTarget :: "layout \<Rightarrow> page \<Rightarrow> nat option \<Rightarrow> nat \<Rightarrow> nat option" where
  "findCommentFromTarget L pg body target = findCommentLoop L body (pathOf pg target)"

text \<open>The tag name of the target; a handle that names no live element has none.\<close>

definition tagNameOf :: "page \<Rightarrow> nat \<Rightarrow> string" where
  "tagNameOf pg x = (case lookup pg x of None \<Rightarrow> [] | Some el \<Rightarrow> tagName el)"

definition isValidClickTarget :: "page \<Rightarrow> nat \<Rightarrow> nat \<Rightarrow> bool" where
  "isValidClickTarget pg target comment =
     (if tagNameOf pg target = ''A'' \<and> closest matchesBody (pathOf pg target) = None then False
      else if tagNameOf pg target = ''BUTTON'' then False
      else if tagNameOf pg target = ''INPUT'' \<or> tagNameOf pg target = ''TEXTAREA'' then False
      else if closest matchesVote (pathOf pg target) \<noteq> None then False
      else if closest matchesExpand (pathOf pg target) \<noteq> None then False
      else True)"

text \<open>What a call of the registered callback does: it returns, or it throws an error.\<close>

datatype outcome = Returns | Throws string

text \<open>
  The callback is given by its outcome as a function of the arguments of all its calls so
  far, the latest first. It does not call back into the module.
\<close>

type_synonym callback = "nat option list \<Rightarrow> outcome"

text \<open>
  The variables of the module, and what it does to the outside: \<open>invoked\<close> holds the
  arguments of the calls of the callback and \<open>logged\<close> the errors passed to
  \<open>console.error\<close>, the latest first.
\<close>

record tracker =
  isActive :: bool
  onChangeCallback :: "callback option"
  currentAnchored :: "nat option"
  invoked :: "nat option list"
  logged :: "string list"

text \<open>
  A call returns the new state, or ends with an exception that reaches the caller
  (\<open>Inl\<close>). The \<open>try\<close> of \<open>setAnchored\<close> turns an exception of the callback into a
  call of \<open>console.error\<close>.
\<close>

definition setAnchored :: "nat option \<Rightarrow> tracker \<Rightarrow> string + tracker" where
  "setAnchored comment t =
     (if comment = currentAnchored t then Inr t
      else (let t1 = t\<lparr>currentAnchored := comment\<rparr>
            in (case onChangeCallback t1 of
                  None \<Rightarrow> Inr t1
                | Some cb \<Rightarrow>
                    (let t2 = t1\<lparr>invoked := currentAnchored t1 # invoked t1\<rparr>
                     in (case cb (invoked t2) of
                           Returns \<Rightarrow> Inr t2
                         | Throws error \<Rightarrow> Inr (t2\<lparr>logged := error # logged t2\<rparr>))))))"

definition handleCommentClick :: "layout \<Rightarrow> page \<Rightarrow> nat option \<Rightarrow> nat \<Rightarrow> tracker \<Rightarrow> string + tracker" where
  "handleCommentClick L pg body target t =
     (if \<not> isActive t then Inr t
      else (case findCommentFromTarget L pg body target of
              None \<Rightarrow> Inr t
            | Some comment \<Rightarrow>
                if \<not> isValidClickTarget pg target comment then Inr t
                else if Some comment = currentAnchored t then setAnchored None t
                else setAnchored (Some comment) t))"

definition handleDocumentClick :: "layout \<Rightarrow> page \<Rightarrow> nat option \<Rightarrow> nat \<Rightarrow> tracker \<Rightarrow> string + tracker" where
  "handleDocumentClick L pg body target t =
     (if \<not> isActive t \<or> currentAnchored t = None then Inr t
      else if findCommentFromTarget L pg body target \<noteq> None then Inr t
      else if closest matchesSticky (pathOf pg target) \<noteq> None then Inr t
      else setAnchored None t)"

text \<open>
  A click: the listener of the capture phase, \<open>handleCommentClick\<close>, runs first, then
  the listener of the bubble phase, \<open>handleDocumentClick\<close>.
\<close>

definition click :: "layout \<Rightarrow> page \<Rightarrow> nat option \<Rightarrow> nat \<Rightarrow> tracker \<Rightarrow> string + tracker" where
  "click L pg body target t =
     (case handleCommentClick L pg body target t of
        Inl error \<Rightarrow> Inl error
      | Inr t1 \<Rightarrow> handleDocumentClick L pg body target t1)"

text \<open>The anchored comment after a call that returned.\<close>

definition anchorAfter :: "string + tracker \<Rightarrow> nat option option" where
  "anchorAfter r = (case r of Inl error \<Rightarrow> None | Inr t \<Rightarrow> Some (currentAnchored t))"

section \<open>The excerpt of getCommentMeta\<close>

text \<open>
  The text of the comment body is a JavaScript string: a list of UTF-16 code units;
  \<open>length\<close> and \<open>slice\<close> count code units.
\<close>

type_synonym jsstring = "nat list"

text \<open>The code units that \<open>trim\<close> removes: white space and line terminators.\<close>

definition trimmed :: "nat \<Rightarrow> bool" where
  "trimmed u =
     (u \<in> set [0x0009, 0x000A, 0x000B, 0x000C, 0x000D, 0x0020, 0x00A0, 0x1680, 0x2028, 0x2029,
                0x202F, 0x205F, 0x3000, 0xFEFF] \<or> (0x2000 \<le> u \<and> u \<le> 0x200A))"

definition trim :: "jsstring \<Rightarrow> jsstring" where
  "trim s = rev (dropWhile trimmed (rev (dropWhile trimmed s)))"

text \<open>The string \<open>'...'\<close>\<close>

definition dots :: jsstring where
  "dots = [46, 46, 46]"

text \<open>
  The excerpt as both \<open>OldReddit.getCommentMeta\<close> and \<open>NewReddit.getCommentMeta\<close>
  compute it. The argument is \<open>bodyEl.textContent\<close>, or \<open>None\<close> when \<open>querySelector\<close>
  found no body element.
\<close>

definition excerptOf :: "jsstring option \<Rightarrow> jsstring" where
  "excerptOf textContent =
     (case textContent of
        None \<Rightarrow> []
      | Some text \<Rightarrow>
          (let excerpt = take 150 (trim text)
           in if length text > 150 then excerpt @ dots else excerpt))"

section \<open>getCommentId\<close>







section \<open>stickyUI.js\<close>

subsection \<open>What the renderer does to the page\<close>

text \<open>The elements before and after an element in document order.\<close>

definition preceding :: "nat \<Rightarrow> page \<Rightarrow> element list" where
  "preceding x pg = takeWhile (\<lambda>e. eid e \<noteq> x) pg"

definition following :: "nat \<Rightarrow> page \<Rightarrow> element list" where
  "following x pg = drop 1 (dropWhile (\<lambda>e. eid e \<noteq> x) pg)"

text \<open>The elements inside an element, in document order.\<close>

definition descendantsOf :: "page \<Rightarrow> nat \<Rightarrow> element list" where
  "descendantsOf pg x =
     (case lookup pg x of
        None \<Rightarrow> []
      | Some el \<Rightarrow> takeWhile (\<lambda>d. level el < level d) (following x pg))"

text \<open>\<open>el.querySelector('.c')\<close>: the first element inside \<open>el\<close> that has the class.\<close>

definition querySelectorClass :: "page \<Rightarrow> nat \<Rightarrow> string \<Rightarrow> element option" where
  "querySelectorClass pg x c = find (hasClass c) (descendantsOf pg x)"

text \<open>The elements of the document: the first tree of the store.\<close>

definition documentElements :: "page \<Rightarrow> element list" where
  "documentElements pg =
     (case pg of [] \<Rightarrow> [] | root # rest \<Rightarrow> root # takeWhile (\<lambda>d. level root < level d) rest)"

text \<open>\<open>document.contains(el)\<close>\<close>

definition documentContains :: "page \<Rightarrow> nat \<Rightarrow> bool" where
  "documentContains pg x = (x \<in> set (map eid (documentElements pg)))"

text \<open>\<open>el.classList.add(c)\<close> and \<open>el.classList.remove(c)\<close>\<close>

definition classListAdd :: "nat \<Rightarrow> string \<Rightarrow> page \<Rightarrow> page" where
  "classListAdd x c pg =
     map (\<lambda>e. if eid e = x \<and> c \<notin> set (classList e) then e\<lparr>classList := classList e @ [c]\<rparr> else e) pg"

definition classListRemove :: "nat \<Rightarrow> string \<Rightarrow> page \<Rightarrow> page" where
  "classListRemove x c pg =
     map (\<lambda>e. if eid e = x then e\<lparr>classList := removeAll c (classList e)\<rparr> else e) pg"

text \<open>
  \<open>el.remove()\<close>: an element that has a parent leaves the page with everything inside it
  and becomes a detached tree at the end of the store.
\<close>

definition removeElement :: "nat \<Rightarrow> page \<Rightarrow> page" where
  "removeElement x pg =
     (case lookup pg x of
        None \<Rightarrow> pg
      | Some el \<Rightarrow>
          if ancestorsOf pg x = [] then pg
          else (let inside = descendantsOf pg x
                in preceding x pg @ drop (length inside) (following x pg) @
                   map (\<lambda>d. d\<lparr>level := level d - level el\<rparr>) (el # inside)))"

text \<open>The identity of a new object: one more than every identity in the store.\<close>

definition freshId :: "page \<Rightarrow> nat" where
  "freshId pg = Suc (fold max (map eid pg) 0)"

text \<open>
  The \<open>span\<close> of class \<open>ta-active-icon\<close> that \<open>updateActiveHighlight\<close> creates, and
  \<open>el.insertBefore(icon, el.firstChild)\<close>.
\<close>

definition newIcon :: "nat \<Rightarrow> nat \<Rightarrow> element" where
  "newIcon i l =
     \<lparr>eid = i, level = l, tagName = ''SPAN'', elemId = [], classList = [''ta-active-icon''],
      attributes = []\<rparr>"

definition insertIcon :: "nat \<Rightarrow> page \<Rightarrow> page" where
  "insertIcon x pg =
     (case lookup pg x of
        None \<Rightarrow> pg
      | Some el \<Rightarrow>
          preceding x pg @ el # newIcon (freshId pg) (Suc (level el)) # following x pg)"

subsection \<open>The header\<close>

text \<open>The metadata of the original post, from \<open>getOriginalPost\<close>.\<close>

record opMeta =
  title :: string
  author :: string
  score :: string
  subreddit :: string
  url :: string
  postId :: string

text \<open>
  A row of the header is given by the call that built it: \<open>createOPRow(opMeta, compact)\<close>,
  or \<open>createRow(comment, depth, compact)\<close> together with the comment id that the row
  stores in \<open>dataset.commentId\<close>. The spans of a row and its listeners are left out.
\<close>

datatype row = OPRow opMeta bool | CommentRow nat string nat bool

text \<open>The container element: its children and whether it has the class \<open>visible\<close>.\<close>

record container =
  rows :: "row list"
  visible :: bool

text \<open>
  The variables of the module, with the page and the \<open>idCache\<close> of the selectors, which
  \<open>render\<close> reads and writes. The position and the style of the container are left out.
  The container and its rows are kept apart from the page: they are no comments and carry
  neither the class nor the icon of the marker.
\<close>

record ui =
  dom :: page
  idCache :: "nat \<rightharpoonup> string"
  containerEl :: "container option"
  isActiveUI :: bool
  configDepth :: int
  configCompact :: bool
  currentChainIds :: "string list"
  currentActiveComment :: "nat option"

text \<open>
  The two steps of \<open>updateActiveHighlight\<close>. First the class and the icon are taken from
  the previous active comment, when there is one and it is not the new one.
\<close>

definition removeHighlight :: "nat option \<Rightarrow> nat option \<Rightarrow> page \<Rightarrow> page" where
  "removeHighlight current newActiveComment pg0 =
     (case current of
        None \<Rightarrow> pg0
      | Some cur \<Rightarrow>
          if Some cur \<noteq> newActiveComment
          then (let pg = classListRemove cur ''ta-active-comment'' pg0
                in (case querySelectorClass pg cur ''ta-active-icon'' of
                      None \<Rightarrow> pg
                    | Some oldIcon \<Rightarrow> removeElement (eid oldIcon) pg))
          else pg0)"

text \<open>
  Then the new active comment, when it is in the document, gets the class, and an icon
  as its first child when there is no icon inside it.
\<close>

definition addHighlight :: "nat option \<Rightarrow> page \<Rightarrow> page" where
  "addHighlight newActiveComment pg1 =
     (case newActiveComment of
        None \<Rightarrow> pg1
      | Some new \<Rightarrow>
          if documentContains pg1 new
          then (let pg = classListAdd new ''ta-active-comment'' pg1
                in if querySelectorClass pg new ''ta-active-icon'' = None
                   then insertIcon new pg else pg)
          else pg1)"

definition updateActiveHighlight :: "nat option \<Rightarrow> ui \<Rightarrow> ui" where
  "updateActiveHighlight newActiveComment s =
     s\<lparr>dom := addHighlight newActiveComment
                (removeHighlight (currentActiveComment s) newActiveComment (dom s)),
       currentActiveComment := newActiveComment\<rparr>"








subsection \<open>The marker of the active comment\<close>

text \<open>The elements that carry the class \<open>ta-active-comment\<close>, and the icons in the document.\<close>

definition markedElements :: "page \<Rightarrow> nat list" where
  "markedElements pg = map eid (filter (hasClass ''ta-active-comment'') pg)"

definition documentIcons :: "page \<Rightarrow> nat list" where
  "documentIcons pg = map eid (filter (hasClass ''ta-active-icon'') (documentElements pg))"

text \<open>
  The marker is where the module believes it to be: the elements of the store are distinct
  objects, only the current active comment carries the class and it is in the document,
  there is at most one icon in the document, and it lies inside the current active comment.
  This holds on a page that the renderer has not touched yet and that has no such class.
\<close>

definition markerAt :: "page \<Rightarrow> nat option \<Rightarrow> bool" where
  "markerAt pg current =
     (distinct (map eid pg) \<and>
      (\<forall>x \<in> set (markedElements pg). current = Some x \<and> documentContains pg x) \<and>
      length (documentIcons pg) \<le> 1 \<and>
      (\<forall>i \<in> set (documentIcons pg).
         \<exists>cur. current = Some cur \<and> documentContains pg cur \<and>
               i \<in> set (map eid (descendantsOf pg cur))))"

definition markerOk :: "ui \<Rightarrow> bool" where
  "markerOk s = markerAt (dom s) (currentActiveComment s)"


subsection \<open>The fingerprint and the ids\<close>




text \<open>
  What of an element the renderer never changes: everything but its level and the class
  \<open>ta-active-comment\<close>.
\<close>

definition unmarked :: "element \<Rightarrow> element" where
  "unmarked e = e\<lparr>level := 0, classList := removeAll ''ta-active-comment'' (classList e)\<rparr>"

section \<open>Example pages\<close>

definition mk :: "nat \<Rightarrow> nat \<Rightarrow> string \<Rightarrow> string \<Rightarrow> string list \<Rightarrow> (string \<times> string) list \<Rightarrow> element" where
  "mk i l t d cs as =
     \<lparr>eid = i, level = l, tagName = t, elemId = d, classList = cs, attributes = as\<rparr>"

text \<open>
  A thread of the old layout: comment 11 with the replies 13 and 16, 15 a reply to 13,
  and a second top-level comment 17.
\<close>

definition oldPage :: page where
  "oldPage =
     [mk 10 0 ''DIV'' ''siteTable_t3_x'' [''siteTable'', ''nestedlisting''] [],
      mk 11 1 ''DIV'' ''thing_t1_a'' [''thing'', ''comment''] [(''data-fullname'', ''t1_a'')],
      mk 12 2 ''DIV'' '''' [''child''] [],
      mk 13 3 ''DIV'' ''thing_t1_b'' [''thing'', ''comment''] [(''data-fullname'', ''t1_b'')],
      mk 14 4 ''DIV'' '''' [''child''] [],
      mk 15 5 ''DIV'' ''thing_t1_c'' [''thing'', ''comment''] [(''data-fullname'', ''t1_c'')],
      mk 16 3 ''DIV'' ''thing_t1_e'' [''thing'', ''comment''] [(''data-fullname'', ''t1_e'')],
      mk 17 1 ''DIV'' ''thing_t1_d'' [''thing'', ''comment''] [(''data-fullname'', ''t1_d'')]]"

text \<open>A top-level comment of the new layout whose \<open>depth\<close> attribute says 2.\<close>

definition depthAttrPage :: page where
  "depthAttrPage =
     [mk 10 0 ''SHREDDIT-COMMENT-TREE'' '''' [] [],
      mk 11 1 ''SHREDDIT-COMMENT'' '''' [] [(''thingid'', ''t1_x''), (''depth'', ''2'')]]"

text \<open>
  Four comments of the new layout, each inside the one before; the \<open>depth\<close> attribute of
  the innermost says 1.
\<close>

definition nestedPage :: page where
  "nestedPage =
     [mk 10 0 ''SHREDDIT-COMMENT-TREE'' '''' [] [],
      mk 11 1 ''SHREDDIT-COMMENT'' '''' [] [(''thingid'', ''t1_a''), (''depth'', ''0'')],
      mk 12 2 ''SHREDDIT-COMMENT'' '''' [] [(''thingid'', ''t1_b''), (''depth'', ''1'')],
      mk 13 3 ''SHREDDIT-COMMENT'' '''' [] [(''thingid'', ''t1_c''), (''depth'', ''2'')],
      mk 14 4 ''SHREDDIT-COMMENT'' '''' [] [(''thingid'', ''t1_d''), (''depth'', ''1'')]]"

definition initialDepthCache :: "nat \<rightharpoonup> jsnum" where
  "initialDepthCache = Map.empty"

text \<open>
  A page of the old layout with the comments 23 and 29. In 23 the element 25 is a vote
  arrow and 28 a paragraph of the comment text; 31 is a paragraph of 29, and 32 lies
  outside the comments.
\<close>

definition clickPage :: page where
  "clickPage =
     [mk 20 0 ''HTML'' '''' [] [],
      mk 21 1 ''BODY'' '''' [] [],
      mk 22 2 ''DIV'' ''siteTable_t3_x'' [''siteTable'', ''nestedlisting''] [],
      mk 23 3 ''DIV'' ''thing_t1_x'' [''thing'', ''comment''] [(''data-fullname'', ''t1_x'')],
      mk 24 4 ''DIV'' '''' [''midcol''] [],
      mk 25 5 ''DIV'' '''' [''arrow'', ''up''] [],
      mk 26 4 ''DIV'' '''' [''entry''] [],
      mk 27 5 ''DIV'' '''' [''md''] [],
      mk 28 6 ''P'' '''' [] [],
      mk 29 3 ''DIV'' ''thing_t1_y'' [''thing'', ''comment''] [(''data-fullname'', ''t1_y'')],
      mk 30 4 ''DIV'' '''' [''entry''] [],
      mk 31 5 ''P'' '''' [] [],
      mk 32 2 ''DIV'' '''' [''side''] []]"

text \<open>A callback that throws on every call.\<close>

definition throwing :: callback where
  "throwing calls = Throws ''boom''"

definition idle :: tracker where
  "idle = \<lparr>isActive = True, onChangeCallback = Some throwing, currentAnchored = None,
            invoked = [], logged = []\<rparr>"

definition anchored :: "nat \<Rightarrow> tracker" where
  "anchored x = idle\<lparr>currentAnchored := Some x\<rparr>"

text \<open>The original post of the example pages.\<close>

definition post1 :: opMeta where
  "post1 = \<lparr>title = ''A post'', author = ''alice'', score = ''7'', subreddit = ''r/test'',
             url = ''https://old.reddit.com/r/test/comments/x/'', postId = ''t3_x''\<rparr>"

text \<open>
  The renderer on \<open>oldPage\<close> after it has shown the post and the chain 11, 13, 15; no
  comment is marked.
\<close>

definition shownContainer :: container where
  "shownContainer =
     \<lparr>rows = [OPRow post1 False, CommentRow 11 ''t1_a'' 1 False, CommentRow 13 ''t1_b'' 2 False,
              CommentRow 15 ''t1_c'' 3 False],
      visible = True\<rparr>"

definition uiShown :: ui where
  "uiShown =
     \<lparr>dom = oldPage, idCache = Map.empty, containerEl = Some shownContainer, isActiveUI = True,
      configDepth = 3, configCompact = False,
      currentChainIds = [''t3_x|t1_a,t1_b,t1_c|false''], currentActiveComment = None\<rparr>"



section \<open>Properties of the page model and of the chain walk\<close>

lemma locate_Some:
  "locate x acc pg = Some (e, before) \<Longrightarrow>
     \<exists>xs ys. pg = xs @ e # ys \<and> before = rev xs @ acc \<and> eid e = x \<and> x \<notin> eid ` set xs"
proof (induction pg arbitrary: acc)
  case Nil
  then show ?case by simp
next
  case (Cons a pg)
  show ?case
  proof (cases "eid a = x")
    case True
    with Cons.prems show ?thesis by (intro exI [of _ "[]"] exI) auto
  next
    case False
    with Cons.prems have "locate x (a # acc) pg = Some (e, before)" by simp
    from Cons.IH [OF this] obtain xs ys where
      "pg = xs @ e # ys" "before = rev xs @ a # acc" "eid e = x" "x \<notin> eid ` set xs" by blast
    with False show ?thesis by (intro exI [of _ "a # xs"] exI) auto
  qed
qed

lemma locate_append:
  "x \<notin> eid ` set xs \<Longrightarrow> eid e = x \<Longrightarrow> locate x acc (xs @ e # ys) = Some (e, rev xs @ acc)"
  by (induction xs arbitrary: acc) auto

lemma enclosing_split:
  "enclosing l pre = as1 @ p # as2 \<Longrightarrow>
     \<exists>pre1 pre2. pre = pre1 @ p # pre2 \<and> as2 = enclosing (level p) pre2"
proof (induction pre arbitrary: l as1)
  case Nil
  then show ?case by simp
next
  case (Cons a pre)
  show ?case
  proof (cases "level a < l")
    case False
    with Cons.prems have "enclosing l pre = as1 @ p # as2" by simp
    from Cons.IH [OF this] obtain pre1 pre2 where "pre = pre1 @ p # pre2" "as2 = enclosing (level p) pre2" by blast
    then show ?thesis by (intro exI [of _ "a # pre1"] exI) auto
  next
    case True
    with Cons.prems have eq: "a # enclosing (level a) pre = as1 @ p # as2" by simp
    show ?thesis
    proof (cases as1)
      case Nil
      with eq show ?thesis by (intro exI [of _ "[]"] exI) auto
    next
      case C: (Cons b bs)
      with eq have "enclosing (level a) pre = bs @ p # as2" by auto
      from Cons.IH [OF this] obtain pre1 pre2 where "pre = pre1 @ p # pre2" "as2 = enclosing (level p) pre2" by blast
      then show ?thesis by (intro exI [of _ "a # pre1"] exI) auto
    qed
  qed
qed

lemma enclosing_length: "length (enclosing l pre) \<le> length pre"
  by (induction pre arbitrary: l) (auto simp: le_SucI)

lemma ancestorsOf_step:
  assumes d: "distinct (map eid pg)" and a: "ancestorsOf pg x = as1 @ p # as2"
  shows "ancestorsOf pg (eid p) = as2 \<and> lookup pg (eid p) = Some p"
proof -
  from a obtain e before where loc: "locate x [] pg = Some (e, before)"
    and enc: "enclosing (level e) before = as1 @ p # as2"
    by (auto simp: ancestorsOf_def split: option.splits)
  from locate_Some [OF loc] obtain xs ys where pg: "pg = xs @ e # ys" and b: "before = rev xs" by auto
  from enclosing_split [OF enc] obtain pre1 pre2 where
    pre: "before = pre1 @ p # pre2" and as2: "as2 = enclosing (level p) pre2" by blast
  from b pre have xs: "xs = rev pre2 @ p # rev pre1"
    by (metis rev_append rev_rev_ident rev.simps(2) append_assoc append_Cons append_Nil)
  with pg have pg': "pg = rev pre2 @ p # (rev pre1 @ e # ys)" by simp
  with d have "eid p \<notin> eid ` set (rev pre2)" by auto
  then have "locate (eid p) [] pg = Some (p, rev (rev pre2) @ [])"
    unfolding pg' by (rule locate_append) simp
  with as2 show ?thesis by (simp add: ancestorsOf_def lookup_def)
qed

lemma parentLoopOld_mem: "parentLoopOld up = Some p \<Longrightarrow> \<exists>as1 as2. up = as1 @ p # as2 \<and> isCommentEl OldReddit p"
proof (induction up)
  case Nil
  then show ?case by simp
next
  case (Cons c up)
  show ?case
  proof (cases "hasClass ''child'' c \<and> (\<exists>q r. up = q # r \<and> isCommentEl OldReddit q)")
    case True
    then obtain q r where "up = q # r" "isCommentEl OldReddit q" "hasClass ''child'' c" by blast
    with Cons.prems show ?thesis by (intro exI [of _ "[c]"] exI) auto
  next
    case False
    with Cons.prems have "parentLoopOld up = Some p"
      by (auto split: if_splits list.splits option.splits)
    from Cons.IH [OF this] obtain as1 as2 where "up = as1 @ p # as2" "isCommentEl OldReddit p" by blast
    then show ?thesis by (intro exI [of _ "c # as1"] exI) auto
  qed
qed

lemma parentLoopNew_mem: "parentLoopNew up = Some p \<Longrightarrow> \<exists>as1 as2. up = as1 @ p # as2 \<and> isCommentEl NewReddit p"
proof (induction up)
  case Nil
  then show ?case by simp
next
  case (Cons c up)
  show ?case
  proof (cases "isCommentEl NewReddit c")
    case True
    with Cons.prems show ?thesis by (intro exI [of _ "[]"] exI) auto
  next
    case False
    with Cons.prems have "parentLoopNew up = Some p" by (auto split: if_splits)
    from Cons.IH [OF this] obtain as1 as2 where "up = as1 @ p # as2" "isCommentEl NewReddit p" by blast
    then show ?thesis by (intro exI [of _ "c # as1"] exI) auto
  qed
qed

lemma parentLoop_mem: "parentLoop L up = Some p \<Longrightarrow> \<exists>as1 as2. up = as1 @ p # as2 \<and> isCommentEl L p"
  using parentLoopOld_mem [of up p] parentLoopNew_mem [of up p] by (cases L) simp_all

lemma ancestorsLoop_None: "ancestorsLoop L pg pc None chain = Some (chain, pc)"
  by (subst ancestorsLoop.simps) simp

lemma ancestorsLoop_Some:
  "ancestorsLoop L pg pc (Some c) chain =
     (case getParentCached L pg pc c of (parent, pc') \<Rightarrow> ancestorsLoop L pg pc' parent (c # chain))"
  by (subst ancestorsLoop.simps) simp

lemma getParentThing_above:
  assumes d: "distinct (map eid pg)" and g: "getParentThing L pg (Element x) = Some p"
  shows "\<exists>as1 q as2. ancestorsOf pg x = as1 @ q # as2 \<and> eid q = p \<and> isCommentEl L q \<and>
           ancestorsOf pg p = as2 \<and> lookup pg p = Some q"
proof -
  from g obtain q where q: "parentLoop L (ancestorsOf pg x) = Some q" and p: "p = eid q"
    by (auto simp: getParentThing_def split: if_splits)
  from parentLoop_mem [OF q] obtain as1 as2 where
    a: "ancestorsOf pg x = as1 @ q # as2" and c: "isCommentEl L q" by blast
  from ancestorsOf_step [OF d a] p a c show ?thesis by blast
qed

lemma getParentThing_shorter:
  assumes "distinct (map eid pg)" and "getParentThing L pg (Element x) = Some p"
  shows "length (ancestorsOf pg p) < length (ancestorsOf pg x)"
  using getParentThing_above [OF assms] by auto

lemma getParentThing_in:
  assumes "distinct (map eid pg)" and "getParentThing L pg (Element x) = Some p"
  shows "p \<in> eid ` set (ancestorsOf pg x)"
  using getParentThing_above [OF assms] by auto

lemma above_shorter:
  assumes d: "distinct (map eid pg)" and "p \<in> eid ` set (ancestorsOf pg x)"
  shows "length (ancestorsOf pg p) < length (ancestorsOf pg x)"
proof -
  from assms(2) obtain q where q: "q \<in> set (ancestorsOf pg x)" and p: "p = eid q" by auto
  from q obtain as1 as2 where a: "ancestorsOf pg x = as1 @ q # as2" by (auto simp: in_set_conv_decomp)
  from ancestorsOf_step [OF d a] a p show ?thesis by auto
qed

lemma parentsOk_above:
  assumes d: "distinct (map eid pg)" and ok: "parentsOk L pg pc"
  shows "parentsAbove pg pc"
  unfolding parentsAbove_def
proof (intro allI impI)
  fix x p assume "pc x = Some (Some p)"
  with ok have "getParentThing L pg (Element x) = Some p" by (simp add: parentsOk_def)
  from getParentThing_in [OF d this] show "p \<in> eid ` set (ancestorsOf pg x)" .
qed

lemma getParentCached_ok:
  assumes ok: "parentsOk L pg pc" and g: "getParentCached L pg pc c = (p, pc')"
  shows "p = getParentThing L pg (Element c) \<and> parentsOk L pg pc'"
proof (cases "pc c")
  case None
  with g have "p = getParentThing L pg (Element c)" and "pc' = pc(c \<mapsto> p)"
    by (auto simp: getParentCached_def Let_def)
  with ok show ?thesis by (simp add: parentsOk_def)
next
  case (Some v)
  with g have "p = v" "pc' = pc" by (auto simp: getParentCached_def)
  with ok Some show ?thesis by (simp add: parentsOk_def)
qed

lemma getParentCached_above:
  assumes d: "distinct (map eid pg)" and ok: "parentsAbove pg pc"
    and g: "getParentCached L pg pc c = (p, pc')"
  shows "(\<forall>q. p = Some q \<longrightarrow> q \<in> eid ` set (ancestorsOf pg c)) \<and> parentsAbove pg pc'"
proof (cases "pc c")
  case None
  with g have p: "p = getParentThing L pg (Element c)" and pc': "pc' = pc(c \<mapsto> p)"
    by (auto simp: getParentCached_def Let_def)
  from p have 1: "\<forall>q. p = Some q \<longrightarrow> q \<in> eid ` set (ancestorsOf pg c)"
    using getParentThing_in [OF d] by metis
  with ok pc' show ?thesis by (simp add: parentsAbove_def)
next
  case (Some v)
  with g have "p = v" "pc' = pc" by (auto simp: getParentCached_def)
  with ok Some show ?thesis by (simp add: parentsAbove_def)
qed

lemma chainOf_unfold:
  "distinct (map eid pg) \<Longrightarrow>
   chainOf L pg x = (case getParentThing L pg (Element x) of None \<Rightarrow> [x] | Some p \<Rightarrow> chainOf L pg p @ [x])"
  by (subst chainOf.simps) (auto split: option.splits dest: getParentThing_shorter)

lemma loop_ends:
  assumes d: "distinct (map eid pg)"
  shows "parentsAbove pg pc \<Longrightarrow> length (ancestorsOf pg c) = n \<Longrightarrow>
    \<exists>chain pc'. ancestorsLoop L pg pc (Some c) acc = Some (chain, pc') \<and> parentsAbove pg pc' \<and>
       length chain \<le> length acc + Suc (length (ancestorsOf pg c))"
proof (induction n arbitrary: c acc pc rule: less_induct)
  case (less n)
  obtain p pc1 where g: "getParentCached L pg pc c = (p, pc1)" by (cases "getParentCached L pg pc c")
  from getParentCached_above [OF d less.prems(1) g]
  have pa: "parentsAbove pg pc1" and pin: "\<And>q. p = Some q \<Longrightarrow> q \<in> eid ` set (ancestorsOf pg c)" by auto
  show ?case
  proof (cases p)
    case None
    with g pa show ?thesis by (simp add: ancestorsLoop_Some ancestorsLoop_None)
  next
    case (Some q)
    from above_shorter [OF d pin [OF Some]] have sh: "length (ancestorsOf pg q) < length (ancestorsOf pg c)" .
    with less.prems have "length (ancestorsOf pg q) < n" by simp
    from less.IH [OF this pa refl, of "c # acc"] obtain chain pc' where
      "ancestorsLoop L pg pc1 (Some q) (c # acc) = Some (chain, pc')" "parentsAbove pg pc'"
      "length chain \<le> length (c # acc) + Suc (length (ancestorsOf pg q))" by blast
    with g Some sh show ?thesis by (simp add: ancestorsLoop_Some)
  qed
qed

lemma loop_longer:
  assumes d: "distinct (map eid pg)"
  shows "parentsAbove pg pc \<Longrightarrow> length (ancestorsOf pg c) = n \<Longrightarrow>
    \<exists>chain pc'. ancestorsLoop L pg pc (Some c) acc = Some (chain, pc') \<and> length acc < length chain"
proof (induction n arbitrary: c acc pc rule: less_induct)
  case (less n)
  obtain p pc1 where g: "getParentCached L pg pc c = (p, pc1)" by (cases "getParentCached L pg pc c")
  from getParentCached_above [OF d less.prems(1) g]
  have pa: "parentsAbove pg pc1" and pin: "\<And>q. p = Some q \<Longrightarrow> q \<in> eid ` set (ancestorsOf pg c)" by auto
  show ?case
  proof (cases p)
    case None
    with g show ?thesis by (simp add: ancestorsLoop_Some ancestorsLoop_None)
  next
    case (Some q)
    from above_shorter [OF d pin [OF Some]] less.prems have "length (ancestorsOf pg q) < n" by simp
    from less.IH [OF this pa refl, of "c # acc"] obtain chain pc' where
      "ancestorsLoop L pg pc1 (Some q) (c # acc) = Some (chain, pc')" "length (c # acc) < length chain"
      by blast
    with g Some show ?thesis by (simp add: ancestorsLoop_Some)
  qed
qed

lemma loop_chain:
  assumes d: "distinct (map eid pg)"
  shows "parentsOk L pg pc \<Longrightarrow> length (ancestorsOf pg c) = n \<Longrightarrow>
    \<exists>pc'. ancestorsLoop L pg pc (Some c) acc = Some (chainOf L pg c @ acc, pc') \<and> parentsOk L pg pc'"
proof (induction n arbitrary: c acc pc rule: less_induct)
  case (less n)
  obtain p pc1 where g: "getParentCached L pg pc c = (p, pc1)" by (cases "getParentCached L pg pc c")
  from getParentCached_ok [OF less.prems(1) g]
  have pa: "parentsOk L pg pc1" and p: "p = getParentThing L pg (Element c)" by auto
  show ?case
  proof (cases p)
    case None
    with g pa p show ?thesis
      by (simp add: ancestorsLoop_Some ancestorsLoop_None chainOf_unfold [OF d, of L c])
  next
    case (Some q)
    with p have gq: "getParentThing L pg (Element c) = Some q" by simp
    from getParentThing_shorter [OF d gq] less.prems have "length (ancestorsOf pg q) < n" by simp
    from less.IH [OF this pa refl, of "c # acc"] obtain pc' where
      "ancestorsLoop L pg pc1 (Some q) (c # acc) = Some (chainOf L pg q @ c # acc, pc')" "parentsOk L pg pc'"
      by blast
    with g Some gq show ?thesis
      by (simp add: ancestorsLoop_Some chainOf_unfold [OF d, of L c])
  qed
qed

lemma chainOf_ne: "chainOf L pg x \<noteq> []"
  by (subst chainOf.simps) (simp split: option.splits)

lemma chainOf_last: "last (chainOf L pg x) = x"
  by (subst chainOf.simps) (simp split: option.splits)

lemma chainFor_Element:
  "isCommentThing L pg v \<Longrightarrow> \<exists>x. v = Element x \<and> chainFor L pg v = chainOf L pg x"
  by (cases v) (auto simp: chainFor_def isCommentThing_def)

lemma chainFor_non: "\<not> isCommentThing L pg v \<Longrightarrow> chainFor L pg v = []"
  by (cases v) (auto simp: chainFor_def)

lemma computeAncestors_hit:
  assumes ok: "cachesOk L pg s" and c: "isCommentThing L pg (Element x)"
    and h: "chainCache s x = Some c0"
  shows "computeAncestors L pg s (Element x) =
           Some (nextAddr s, s\<lparr>arrays := (arrays s)(nextAddr s := chainOf L pg x), nextAddr := Suc (nextAddr s)\<rparr>)"
  using assms by (simp add: computeAncestors_def newArray_def cachesOk_def)

lemma computeAncestors_miss:
  assumes d: "distinct (map eid pg)" and ok: "cachesOk L pg s" and c: "isCommentThing L pg (Element x)"
    and h: "chainCache s x = None"
  shows "\<exists>pc. parentsOk L pg pc \<and> computeAncestors L pg s (Element x) =
           Some (Suc (nextAddr s),
             s\<lparr>parentCache := pc,
               arrays := (arrays s)(nextAddr s := chainOf L pg x, Suc (nextAddr s) := chainOf L pg x),
               nextAddr := Suc (Suc (nextAddr s)),
               chainCache := (chainCache s)(x \<mapsto> nextAddr s)\<rparr>)"
proof -
  from ok have "parentsOk L pg (parentCache s)" by (simp add: cachesOk_def)
  from loop_chain [OF d this refl, of x "[]"] obtain pc where
    l: "ancestorsLoop L pg (parentCache s) (Some x) [] = Some (chainOf L pg x, pc)" and p: "parentsOk L pg pc"
    by auto
  from l c h have "computeAncestors L pg s (Element x) =
           Some (Suc (nextAddr s),
             s\<lparr>parentCache := pc,
               arrays := (arrays s)(nextAddr s := chainOf L pg x, Suc (nextAddr s) := chainOf L pg x),
               nextAddr := Suc (Suc (nextAddr s)),
               chainCache := (chainCache s)(x \<mapsto> nextAddr s)\<rparr>)"
    by (simp add: computeAncestors_def newArray_def)
  with p show ?thesis by blast
qed

lemma computeAncestors_non:
  assumes "\<not> isCommentThing L pg v"
  shows "computeAncestors L pg s v =
           Some (nextAddr s, s\<lparr>arrays := (arrays s)(nextAddr s := []), nextAddr := Suc (nextAddr s)\<rparr>)"
  using assms by (simp add: computeAncestors_def newArray_def)

text \<open>What every call does to the state.\<close>

lemma computeAncestors_frame:
  assumes d: "distinct (map eid pg)" and ok: "cachesOk L pg s"
  shows "\<exists>a s'. computeAncestors L pg s v = Some (a, s') \<and> arrays s' a = chainFor L pg v \<and>
           cachesOk L pg s' \<and> nextAddr s \<le> a \<and> a < nextAddr s' \<and>
           (\<forall>b. b < nextAddr s \<longrightarrow> arrays s' b = arrays s b) \<and>
           (\<forall>y c. chainCache s' y = Some c \<longrightarrow> c \<noteq> a \<and> (chainCache s y = Some c \<or> nextAddr s \<le> c))"
proof (cases "isCommentThing L pg v")
  case False
  from ok have "cachesOk L pg (s\<lparr>arrays := (arrays s)(nextAddr s := []), nextAddr := Suc (nextAddr s)\<rparr>)"
    by (auto simp: cachesOk_def less_SucI)
  moreover from ok have "\<forall>y. chainCache s y \<noteq> Some (nextAddr s)" by (fastforce simp: cachesOk_def)
  ultimately show ?thesis using False
    by (auto simp: computeAncestors_non chainFor_non)
next
  case True
  from chainFor_Element [OF True] obtain x where v: "v = Element x" and cf0: "chainFor L pg v = chainOf L pg x" by blast
  from cf0 v have cf: "chainFor L pg (Element x) = chainOf L pg x" by simp
  from True v have cx: "isCommentThing L pg (Element x)" by simp
  have lt: "\<And>y a. chainCache s y = Some a \<Longrightarrow> a < nextAddr s"
    using ok by (simp add: cachesOk_def)
  have fresh: "\<forall>y. chainCache s y \<noteq> Some (nextAddr s)" "\<forall>y. chainCache s y \<noteq> Some (Suc (nextAddr s))"
    using lt by fastforce+
  show ?thesis
  proof (cases "chainCache s x")
    case (Some c0)
    from ok have "cachesOk L pg (s\<lparr>arrays := (arrays s)(nextAddr s := chainOf L pg x), nextAddr := Suc (nextAddr s)\<rparr>)"
      by (auto simp: cachesOk_def less_SucI)
    with fresh show ?thesis using cx Some
      by (auto simp: computeAncestors_hit [OF ok] v cf)
  next
    case None
    from computeAncestors_miss [OF d ok cx None] obtain pc where
      pc: "parentsOk L pg pc" and
      r: "computeAncestors L pg s (Element x) =
           Some (Suc (nextAddr s),
             s\<lparr>parentCache := pc,
               arrays := (arrays s)(nextAddr s := chainOf L pg x, Suc (nextAddr s) := chainOf L pg x),
               nextAddr := Suc (Suc (nextAddr s)),
               chainCache := (chainCache s)(x \<mapsto> nextAddr s)\<rparr>)" by auto
    from ok pc lt have "cachesOk L pg (s\<lparr>parentCache := pc,
               arrays := (arrays s)(nextAddr s := chainOf L pg x, Suc (nextAddr s) := chainOf L pg x),
               nextAddr := Suc (Suc (nextAddr s)),
               chainCache := (chainCache s)(x \<mapsto> nextAddr s)\<rparr>)"
      by (fastforce simp: cachesOk_def less_SucI)
    with fresh show ?thesis using r
      by (auto simp: v cf)
  qed
qed

lemma mutate_ok:
  "cachesOk L pg s \<Longrightarrow> \<forall>y. chainCache s y \<noteq> Some a \<Longrightarrow> cachesOk L pg (mutate a ys s)"
  by (auto simp: cachesOk_def mutate_def)

lemma parentLoopOld_hops:
  "parentLoopOld up = Some p \<Longrightarrow>
     \<exists>as1 as2. up = as1 @ p # as2 \<and> hopsOld up = Suc (hopsOld as2)"
proof (induction up rule: hopsOld.induct)
  case 1
  then show ?case by simp
next
  case (2 c)
  then show ?case by (simp split: if_splits)
next
  case (3 c q up)
  show ?case
  proof (cases "hasClass ''child'' c \<and> isCommentEl OldReddit q")
    case True
    with 3 have "p = q" by simp
    with True have "c # q # up = [c] @ p # up \<and> hopsOld (c # q # up) = Suc (hopsOld up)" by simp
    then show ?thesis by blast
  next
    case False
    show ?thesis
    proof (cases "hasClass ''siteTable'' c")
      case True
      with False "3.prems" show ?thesis by (auto split: if_splits)
    next
      case st: False
      with False "3.prems" have "parentLoopOld (q # up) = Some p" by (auto split: if_splits)
      from "3.IH"(2) [OF False st this] obtain as1 as2 where
        "q # up = as1 @ p # as2" "hopsOld (q # up) = Suc (hopsOld as2)" by blast
      moreover from False st have "hopsOld (c # q # up) = hopsOld (q # up)" by auto
      ultimately have "c # q # up = (c # as1) @ p # as2 \<and> hopsOld (c # q # up) = Suc (hopsOld as2)"
        by simp
      then show ?thesis by blast
    qed
  qed
qed

lemma parentLoopOld_none: "parentLoopOld up = None \<Longrightarrow> hopsOld up = 0"
  by (induction up rule: hopsOld.induct) (auto split: if_splits)

lemma parentLoopNew_hops:
  "parentLoopNew up = Some p \<Longrightarrow>
     \<exists>as1 as2. up = as1 @ p # as2 \<and> hopsNew up = Suc (hopsNew as2)"
proof (induction up)
  case Nil
  then show ?case by simp
next
  case (Cons c up)
  show ?case
  proof (cases "isCommentEl NewReddit c")
    case True
    with Cons.prems have "p = c" by simp
    with True have "c # up = [] @ p # up \<and> hopsNew (c # up) = Suc (hopsNew up)" by simp
    then show ?thesis by blast
  next
    case False
    with Cons.prems have t: "toLowerCase (tagName c) \<noteq> ''shreddit-comment-tree''"
      and "parentLoopNew up = Some p" by (auto split: if_splits)
    from Cons.IH [OF this(2)] obtain as1 as2 where
      "up = as1 @ p # as2" "hopsNew up = Suc (hopsNew as2)" by blast
    with False t have "c # up = (c # as1) @ p # as2 \<and> hopsNew (c # up) = Suc (hopsNew as2)"
      by simp
    then show ?thesis by blast
  qed
qed

lemma parentLoopNew_none: "parentLoopNew up = None \<Longrightarrow> hopsNew up = 0"
  by (induction up) (auto split: if_splits)

lemma parentLoop_hops:
  "parentLoop L up = Some p \<Longrightarrow> \<exists>as1 as2. up = as1 @ p # as2 \<and> hops L up = Suc (hops L as2)"
  using parentLoopOld_hops [of up p] parentLoopNew_hops [of up p] by (cases L) simp_all

lemma parentLoop_none: "parentLoop L up = None \<Longrightarrow> hops L up = 0"
  using parentLoopOld_none [of up] parentLoopNew_none [of up] by (cases L) simp_all

lemma parentLoop_comment: "parentLoop L up = Some p \<Longrightarrow> isCommentEl L p"
  using parentLoop_mem by blast

lemma chainOf_length:
  assumes d: "distinct (map eid pg)"
  shows "isCommentThing L pg (Element x) \<Longrightarrow> length (ancestorsOf pg x) = n \<Longrightarrow>
         length (chainOf L pg x) = Suc (hops L (ancestorsOf pg x))"
proof (induction n arbitrary: x rule: less_induct)
  case (less n)
  from less.prems(1) have g: "getParentThing L pg (Element x) = map_option eid (parentLoop L (ancestorsOf pg x))"
    by (simp add: getParentThing_def)
  show ?case
  proof (cases "parentLoop L (ancestorsOf pg x)")
    case None
    with g parentLoop_none [OF None] show ?thesis by (simp add: chainOf_unfold [OF d, of L x])
  next
    case (Some q)
    from parentLoop_hops [OF Some] obtain as1 as2 where
      a: "ancestorsOf pg x = as1 @ q # as2" and h: "hops L (ancestorsOf pg x) = Suc (hops L as2)" by blast
    from ancestorsOf_step [OF d a] have aq: "ancestorsOf pg (eid q) = as2" and lq: "lookup pg (eid q) = Some q"
      by auto
    from lq parentLoop_comment [OF Some] have cq: "isCommentThing L pg (Element (eid q))"
      by (simp add: isCommentThing_def)
    from a aq less.prems(2) have "length (ancestorsOf pg (eid q)) < n" by auto
    from less.IH [OF this cq refl] aq have "length (chainOf L pg (eid q)) = Suc (hops L as2)" by simp
    with g Some h show ?thesis by (simp add: chainOf_unfold [OF d, of L x])
  qed
qed

lemma depthLoopOld_regular: "regularOld up \<Longrightarrow> depthLoopOld up n = n + int (hopsOld up)"
proof (induction up arbitrary: n rule: regularOld.induct)
  case 1
  then show ?case by simp
next
  case (2 c)
  then show ?case by (cases "boundaryOld c") (simp_all add: boundaryOld_def)
next
  case (3 c p up)
  show ?case
  proof (cases "boundaryOld c")
    case True
    with "3.prems" have "hasClass ''siteTable'' c" "\<not> hasClass ''child'' c" by simp_all
    then have "hopsOld (c # p # up) = 0" by simp
    moreover from True have "depthLoopOld (c # p # up) n = n" unfolding boundaryOld_def by auto
    ultimately show ?thesis by simp
  next
    case nb: False
    show ?thesis
    proof (cases "hasClass ''child'' c")
      case True
      with nb "3.prems" have p: "isCommentEl OldReddit p" "\<not> boundaryOld p" "\<not> hasClass ''child'' p"
        and r: "regularOld up" by simp_all
      from "3.IH"(1) [OF nb True r] have "depthLoopOld up (n + 1) = n + 1 + int (hopsOld up)" .
      moreover from nb True p have "depthLoopOld (c # p # up) n = depthLoopOld up (n + 1)"
        unfolding boundaryOld_def by auto
      moreover from True p have "hopsOld (c # p # up) = Suc (hopsOld up)" by simp
      ultimately show ?thesis by simp
    next
      case False
      with nb "3.prems" have st: "\<not> hasClass ''siteTable'' c" and r: "regularOld (p # up)" by simp_all
      from "3.IH"(2) [OF nb False r] have "depthLoopOld (p # up) n = n + int (hopsOld (p # up))" .
      moreover from nb False have "depthLoopOld (c # p # up) n = depthLoopOld (p # up) n"
        unfolding boundaryOld_def by auto
      moreover from False st have "hopsOld (c # p # up) = hopsOld (p # up)" by simp
      ultimately show ?thesis by simp
    qed
  qed
qed

lemma depthLoopNew_regular: "regularNewAbove up \<Longrightarrow> depthLoopNew up (Num n) = Num (n + int (hopsNew up))"
proof (induction up arbitrary: n)
  case Nil
  then show ?case by simp
next
  case (Cons c up)
  show ?case
  proof (cases "toLowerCase (tagName c) = ''shreddit-comment-tree''")
    case True
    with Cons.prems have nc: "\<not> isCommentEl NewReddit c" by simp
    then have "toLowerCase (tagName c) \<noteq> ''shreddit-comment''" by (auto simp: isCommentEl.simps)
    with True nc show ?thesis by (simp add: Let_def)
  next
    case nt: False
    with Cons.prems have r: "regularNewAbove up"
      and t: "isCommentEl NewReddit c \<longrightarrow> toLowerCase (tagName c) = ''shreddit-comment''" by simp_all
    show ?thesis
    proof (cases "isCommentEl NewReddit c")
      case True
      with t have tt: "toLowerCase (tagName c) = ''shreddit-comment''" by simp
      from Cons.IH [OF r, of "n + 1"] have "depthLoopNew up (Num (n + 1)) = Num (n + 1 + int (hopsNew up))" .
      with True tt show ?thesis by (simp add: Let_def)
    next
      case False
      then have tt: "toLowerCase (tagName c) \<noteq> ''shreddit-comment''" by (auto simp: isCommentEl.simps)
      from Cons.IH [OF r, of n] have "depthLoopNew up (Num n) = Num (n + int (hopsNew up))" .
      with False tt nt show ?thesis by (simp add: Let_def)
    qed
  qed
qed

lemma indentDepthOf_regular: "regular L el up \<Longrightarrow> indentDepthOf L el up = Num (int (hops L up))"
proof (cases L)
  case OldReddit
  assume "regular L el up"
  with OldReddit show ?thesis by (simp add: depthLoopOld_regular)
next
  case NewReddit
  assume "regular L el up"
  with NewReddit have r: "regularNewAbove up" and a: "depthAttribute el = Num 0 \<or> depthAttribute el = depthLoopNew up (Num 0)"
    by auto
  from depthLoopNew_regular [OF r, of 0] have l: "depthLoopNew up (Num 0) = Num (int (hopsNew up))" by simp
  from a l NewReddit show ?thesis by (auto simp: Let_def)
qed

lemma chainOf_prefix:
  assumes d: "distinct (map eid pg)"
  shows "c \<in> set (chainOf L pg x) \<Longrightarrow> length (ancestorsOf pg x) = n \<Longrightarrow>
         \<exists>rest. chainOf L pg x = chainOf L pg c @ rest"
proof (induction n arbitrary: x rule: less_induct)
  case (less n)
  show ?case
  proof (cases "c = x")
    case True
    then show ?thesis by simp
  next
    case False
    show ?thesis
    proof (cases "getParentThing L pg (Element x)")
      case None
      with less.prems(1) False show ?thesis by (simp add: chainOf_unfold [OF d, of L x])
    next
      case (Some p)
      then have u: "chainOf L pg x = chainOf L pg p @ [x]" by (simp add: chainOf_unfold [OF d, of L x])
      with less.prems(1) False have "c \<in> set (chainOf L pg p)" by simp
      moreover from getParentThing_shorter [OF d Some] less.prems(2) have "length (ancestorsOf pg p) < n" by simp
      ultimately obtain rest where "chainOf L pg p = chainOf L pg c @ rest" using less.IH by blast
      with u show ?thesis by simp
    qed
  qed
qed

lemma chainOf_hd:
  assumes d: "distinct (map eid pg)" and c: "c \<in> set (chainOf L pg x)"
  shows "hd (chainOf L pg x) = hd (chainOf L pg c)"
proof -
  from chainOf_prefix [OF d c refl] obtain rest where "chainOf L pg x = chainOf L pg c @ rest" by blast
  then show ?thesis by (simp add: chainOf_ne)
qed

lemma find_rev_Some:
  "find P (rev ys) = Some c \<Longrightarrow> \<exists>front rear. ys = front @ c # rear \<and> P c \<and> (\<forall>y \<in> set rear. \<not> P y)"
proof (induction ys rule: rev_induct)
  case Nil
  then show ?case by simp
next
  case (snoc z zs)
  show ?case
  proof (cases "P z")
    case True
    with snoc.prems have "c = z" by simp
    with True have "zs @ [z] = zs @ c # [] \<and> P c \<and> (\<forall>y \<in> set []. \<not> P y)" by simp
    then show ?thesis by blast
  next
    case False
    with snoc.prems have "find P (rev zs) = Some c" by simp
    from snoc.IH [OF this] obtain front rear where
      "zs = front @ c # rear" "P c" "\<forall>y \<in> set rear. \<not> P y" by blast
    with False have "zs @ [z] = front @ c # (rear @ [z]) \<and> P c \<and> (\<forall>y \<in> set (rear @ [z]). \<not> P y)"
      by simp
    then show ?thesis by blast
  qed
qed

lemma find_rev_None: "find P (rev ys) = None \<longleftrightarrow> (\<forall>y \<in> set ys. \<not> P y)"
  by (auto simp: find_None_iff)

lemma chainFor_hd:
  assumes d: "distinct (map eid pg)" and c: "c \<in> set (chainFor L pg a)" and c': "c \<in> set (chainFor L pg b)"
  shows "hd (chainFor L pg a) = hd (chainFor L pg b)"
proof -
  from c have "isCommentThing L pg a" by (cases "isCommentThing L pg a") (simp_all add: chainFor_non)
  from chainFor_Element [OF this] obtain x where x: "chainFor L pg a = chainOf L pg x" by blast
  from c' have "isCommentThing L pg b" by (cases "isCommentThing L pg b") (simp_all add: chainFor_non)
  from chainFor_Element [OF this] obtain y where y: "chainFor L pg b = chainOf L pg y" by blast
  from c c' x y chainOf_hd [OF d, of c L x] chainOf_hd [OF d, of c L y] show ?thesis by simp
qed

lemma computeAncestors_twice:
  assumes d: "distinct (map eid pg)" and ok: "cachesOk L pg s"
  shows "\<exists>a1 s1 a2 s2. computeAncestors L pg s a = Some (a1, s1) \<and>
           computeAncestors L pg s1 b = Some (a2, s2) \<and>
           arrays s1 a1 = chainFor L pg a \<and> arrays s2 a1 = chainFor L pg a \<and>
           arrays s2 a2 = chainFor L pg b"
proof -
  from computeAncestors_frame [OF d ok, of a] obtain a1 s1 where
    c1: "computeAncestors L pg s a = Some (a1, s1)" and v1: "arrays s1 a1 = chainFor L pg a"
    and ok1: "cachesOk L pg s1" and lt1: "a1 < nextAddr s1" by blast
  from computeAncestors_frame [OF d ok1, of b] obtain a2 s2 where
    c2: "computeAncestors L pg s1 b = Some (a2, s2)" and v2: "arrays s2 a2 = chainFor L pg b"
    and old2: "\<forall>b. b < nextAddr s1 \<longrightarrow> arrays s2 b = arrays s1 b" by blast
  from old2 lt1 v1 have "arrays s2 a1 = chainFor L pg a" by simp
  with c1 c2 v1 v2 show ?thesis by simp
qed

lemma topLevel_twice:
  assumes d: "distinct (map eid pg)" and ok: "cachesOk L pg s"
  shows "\<exists>s'. shareTopLevel L pg s a b =
     Some ((case chainFor L pg a of [] \<Rightarrow> None | t # _ \<Rightarrow> Some t) \<noteq> None \<and>
           (case chainFor L pg a of [] \<Rightarrow> None | t # _ \<Rightarrow> Some t) =
           (case chainFor L pg b of [] \<Rightarrow> None | t # _ \<Rightarrow> Some t), s')"
proof -
  from computeAncestors_twice [OF d ok, of a b] obtain a1 s1 a2 s2 where
    "computeAncestors L pg s a = Some (a1, s1)" "computeAncestors L pg s1 b = Some (a2, s2)"
    "arrays s1 a1 = chainFor L pg a" "arrays s2 a2 = chainFor L pg b" by blast
  then show ?thesis by (simp add: shareTopLevel_def getTopLevelAncestor_def)
qed

subsection \<open>The example pages\<close>

lemma oldPage_distinct: "distinct (map eid oldPage)"
  by (simp add: oldPage_def mk_def)

lemma initial_cachesOk: "cachesOk L pg initialAncestors"
  by (simp add: cachesOk_def parentsOk_def initialAncestors_def)

lemma initial_parentsAbove: "parentsAbove pg (parentCache initialAncestors)"
  by (simp add: parentsAbove_def initialAncestors_def)

lemma initial_depthsOk: "depthsOk L pg initialDepthCache"
  by (simp add: depthsOk_def initialDepthCache_def)

lemma oldPage_lookup:
  "lookup oldPage 12 = Some (mk 12 2 ''DIV'' '''' [''child''] [])"
  "lookup oldPage 15 = Some (mk 15 5 ''DIV'' ''thing_t1_c'' [''thing'', ''comment''] [(''data-fullname'', ''t1_c'')])"
  "lookup oldPage 16 = Some (mk 16 3 ''DIV'' ''thing_t1_e'' [''thing'', ''comment''] [(''data-fullname'', ''t1_e'')])"
  by (simp_all add: lookup_def oldPage_def mk_def)

lemma oldPage_ancestors:
  "ancestorsOf oldPage 15 =
     [mk 14 4 ''DIV'' '''' [''child''] [],
      mk 13 3 ''DIV'' ''thing_t1_b'' [''thing'', ''comment''] [(''data-fullname'', ''t1_b'')],
      mk 12 2 ''DIV'' '''' [''child''] [],
      mk 11 1 ''DIV'' ''thing_t1_a'' [''thing'', ''comment''] [(''data-fullname'', ''t1_a'')],
      mk 10 0 ''DIV'' ''siteTable_t3_x'' [''siteTable'', ''nestedlisting''] []]"
  by (simp add: ancestorsOf_def oldPage_def mk_def)

lemma oldPage_comments:
  "\<not> isCommentThing OldReddit oldPage (Element 12)"
  "isCommentThing OldReddit oldPage (Element 15)"
  "isCommentThing OldReddit oldPage (Element 16)"
  by (simp_all add: isCommentThing_def oldPage_lookup mk_def isCommentEl.simps hasClass_def)

lemma oldPage_regular:
  "regular OldReddit (mk 15 5 ''DIV'' ''thing_t1_c'' [''thing'', ''comment''] [(''data-fullname'', ''t1_c'')])
     (ancestorsOf oldPage 15)"
  by (simp add: oldPage_ancestors mk_def boundaryOld_def hasClass_def isCommentEl.simps)

lemma depthAttrPage_lookup:
  "lookup depthAttrPage 11 =
     Some (mk 11 1 ''SHREDDIT-COMMENT'' '''' [] [(''thingid'', ''t1_x''), (''depth'', ''2'')])"
  by (simp add: lookup_def depthAttrPage_def mk_def)

lemma depthAttrPage_ancestors:
  "ancestorsOf depthAttrPage 11 = [mk 10 0 ''SHREDDIT-COMMENT-TREE'' '''' [] []]"
  by (simp add: ancestorsOf_def depthAttrPage_def mk_def)

lemma depthAttrPage_comment: "isCommentThing NewReddit depthAttrPage (Element 11)"
  by (simp add: isCommentThing_def depthAttrPage_lookup mk_def isCommentEl.simps
      toLowerCase_def lowerChar_def)

lemma oldPage_hops: "hops OldReddit (ancestorsOf oldPage 15) = 2"
  by (simp add: oldPage_ancestors mk_def hasClass_def isCommentEl.simps)

lemma initial_parentsOk: "parentsOk L pg (parentCache initialAncestors)"
  by (simp add: parentsOk_def initialAncestors_def)

lemma nestedPage_lookup:
  "lookup nestedPage 11 = Some (mk 11 1 ''SHREDDIT-COMMENT'' '''' [] [(''thingid'', ''t1_a''), (''depth'', ''0'')])"
  "lookup nestedPage 12 = Some (mk 12 2 ''SHREDDIT-COMMENT'' '''' [] [(''thingid'', ''t1_b''), (''depth'', ''1'')])"
  "lookup nestedPage 13 = Some (mk 13 3 ''SHREDDIT-COMMENT'' '''' [] [(''thingid'', ''t1_c''), (''depth'', ''2'')])"
  "lookup nestedPage 14 = Some (mk 14 4 ''SHREDDIT-COMMENT'' '''' [] [(''thingid'', ''t1_d''), (''depth'', ''1'')])"
  by (simp_all add: lookup_def nestedPage_def mk_def)

lemma nestedPage_ancestors:
  "ancestorsOf nestedPage 11 = [mk 10 0 ''SHREDDIT-COMMENT-TREE'' '''' [] []]"
  "ancestorsOf nestedPage 12 =
     [mk 11 1 ''SHREDDIT-COMMENT'' '''' [] [(''thingid'', ''t1_a''), (''depth'', ''0'')],
      mk 10 0 ''SHREDDIT-COMMENT-TREE'' '''' [] []]"
  "ancestorsOf nestedPage 13 =
     [mk 12 2 ''SHREDDIT-COMMENT'' '''' [] [(''thingid'', ''t1_b''), (''depth'', ''1'')],
      mk 11 1 ''SHREDDIT-COMMENT'' '''' [] [(''thingid'', ''t1_a''), (''depth'', ''0'')],
      mk 10 0 ''SHREDDIT-COMMENT-TREE'' '''' [] []]"
  "ancestorsOf nestedPage 14 =
     [mk 13 3 ''SHREDDIT-COMMENT'' '''' [] [(''thingid'', ''t1_c''), (''depth'', ''2'')],
      mk 12 2 ''SHREDDIT-COMMENT'' '''' [] [(''thingid'', ''t1_b''), (''depth'', ''1'')],
      mk 11 1 ''SHREDDIT-COMMENT'' '''' [] [(''thingid'', ''t1_a''), (''depth'', ''0'')],
      mk 10 0 ''SHREDDIT-COMMENT-TREE'' '''' [] []]"
  by (simp_all add: ancestorsOf_def nestedPage_def mk_def)

lemma shreddit_comment: "isCommentEl NewReddit (mk i l ''SHREDDIT-COMMENT'' d cs as)"
  by (simp add: isCommentEl.simps mk_def toLowerCase_def lowerChar_def)

lemma shreddit_tree: "\<not> isCommentEl NewReddit (mk i l ''SHREDDIT-COMMENT-TREE'' [] [] [])"
  by (simp add: isCommentEl.simps mk_def toLowerCase_def lowerChar_def getAttribute_def)

lemma nestedPage_comments:
  "isCommentThing NewReddit nestedPage (Element 11)"
  "isCommentThing NewReddit nestedPage (Element 12)"
  "isCommentThing NewReddit nestedPage (Element 13)"
  "isCommentThing NewReddit nestedPage (Element 14)"
  by (simp_all add: isCommentThing_def nestedPage_lookup shreddit_comment)

lemma nestedPage_parents:
  "getParentThing NewReddit nestedPage (Element 14) = Some 13"
  "getParentThing NewReddit nestedPage (Element 13) = Some 12"
  "getParentThing NewReddit nestedPage (Element 12) = Some 11"
  "getParentThing NewReddit nestedPage (Element 11) = None"
  by (simp_all add: getParentThing_def nestedPage_comments nestedPage_ancestors shreddit_comment
      shreddit_tree) (simp_all add: mk_def toLowerCase_def lowerChar_def)

lemma nestedPage_loop:
  "map_option fst (ancestorsLoop NewReddit nestedPage (parentCache initialAncestors) (Some 14) []) =
     Some [11, 12, 13, 14]"
  by (simp add: initialAncestors_def ancestorsLoop_Some ancestorsLoop_None getParentCached_def
      nestedPage_parents Let_def)

section \<open>The ancestor chain\<close>

subsection \<open>Values that are no comment\<close>

text \<open>
  C10: for a value that is not classified as a comment under the active layout (also
  \<open>null\<close> and a value that is no element), \<open>computeAncestors\<close> returns an empty array,
  \<open>getDepth\<close> returns 0 and \<open>getTopLevelAncestor\<close> returns \<open>null\<close>; each of the three
  returns a value, none throws.
\<close>

theorem non_comment_defaults:
  assumes "\<not> isCommentThing L pg v"
  shows "(\<exists>a s'. computeAncestors L pg s v = Some (a, s') \<and> arrays s' a = []) \<and>
         (\<exists>s'. getDepth L pg s v = Some (0, s')) \<and>
         (\<exists>s'. getTopLevelAncestor L pg s v = Some (None, s'))"
  using assms
  by (simp add: computeAncestors_def getDepth_def getTopLevelAncestor_def newArray_def)

theorem non_comment_defaults_witness:
  "\<not> isCommentThing OldReddit oldPage (Element 12) \<and>
   returnedChain (computeAncestors OldReddit oldPage initialAncestors (Element 12)) = Some [] \<and>
   map_option fst (getDepth OldReddit oldPage initialAncestors (Element 12)) = Some 0 \<and>
   map_option fst (getTopLevelAncestor OldReddit oldPage initialAncestors Null) = Some None"
proof -
  have n: "\<not> isCommentThing OldReddit oldPage Null" by (simp add: isCommentThing_def)
  from non_comment_defaults [OF oldPage_comments(1), of initialAncestors]
    non_comment_defaults [OF n, of initialAncestors] oldPage_comments(1)
  show ?thesis by (auto simp: returnedChain_def)
qed

subsection \<open>The walk ends\<close>

text \<open>
  C9 as stated fails in its bound. The comment 14 of \<open>nestedPage\<close> lies inside three
  comments and its \<open>depth\<close> attribute says 1, which is what \<open>getIndentDepth\<close> returns.
  The loop of \<open>computeAncestors\<close> runs four rounds, one for each element of the chain
  that it returns, and takes three steps to a parent: more than the depth and more than
  the depth plus one.
\<close>

theorem walk_longer_than_depth:
  "isCommentThing NewReddit nestedPage (Element 14) \<and>
   map_option fst (ancestorsLoop NewReddit nestedPage (parentCache initialAncestors) (Some 14) []) =
     Some [11, 12, 13, 14] \<and>
   returnedChain (computeAncestors NewReddit nestedPage initialAncestors (Element 14)) =
     Some [11, 12, 13, 14] \<and>
   fst (getIndentDepth NewReddit nestedPage initialDepthCache (Element 14)) = Num 1"
proof -
  have "returnedChain (computeAncestors NewReddit nestedPage initialAncestors (Element 14)) =
      Some [11, 12, 13, 14]"
    by (simp add: returnedChain_def computeAncestors_def nestedPage_comments initialAncestors_def
        ancestorsLoop_Some ancestorsLoop_None getParentCached_def nestedPage_parents newArray_def
        Let_def)
  moreover have "fst (getIndentDepth NewReddit nestedPage initialDepthCache (Element 14)) = Num 1"
    by (simp add: getIndentDepth_def nestedPage_comments initialDepthCache_def nestedPage_lookup
        nestedPage_ancestors mk_def depthAttribute_def getAttribute_def parseInt10_def
        isWhiteSpace_def isDigit_def digitsValue_def digitOf_def Let_def)
  ultimately show ?thesis using nestedPage_comments(4) nestedPage_loop by simp
qed

text \<open>
  C9, amended: \<open>computeAncestors\<close> returns for every value when the parent relation has
  no cycle. On a page whose elements are distinct objects \<open>getParentThing\<close> returns \<open>null\<close>
  or an element that encloses its argument; the hypothesis asks the same of the parents
  already in \<open>parentCache\<close>. Each round of the loop puts one element in front of the
  chain, so the length of the chain that the loop returns is the number of its rounds. It
  is at most one more than the number of elements that enclose the node. For a comment
  whose chain is not cached it is one more than the depth that \<open>getDepth\<close> returns. When
  the cached parents are the parents that \<open>getParentThing\<close> gives on the page, it is one
  more than the number of parent steps up the page; and where moreover the markup around
  the comment is regular, it is one more than the depth that \<open>getIndentDepth\<close> returns.
\<close>

theorem computeAncestors_terminates:
  assumes d: "distinct (map eid pg)" and pa: "parentsAbove pg (parentCache s)"
  shows "(\<exists>r. computeAncestors L pg s v = Some r) \<and>
         (\<forall>x. v = Element x \<longrightarrow>
            (\<exists>chain pc. ancestorsLoop L pg (parentCache s) (Some x) [] = Some (chain, pc) \<and>
               length chain \<le> Suc (length (ancestorsOf pg x)) \<and>
               (isCommentThing L pg v \<and> chainCache s x = None \<longrightarrow>
                  map_option fst (getDepth L pg s v) = Some (int (length chain) - 1)) \<and>
               (isCommentThing L pg v \<and> parentsOk L pg (parentCache s) \<longrightarrow>
                  length chain = Suc (hops L (ancestorsOf pg x)) \<and>
                  (\<forall>el. lookup pg x = Some el \<and> regular L el (ancestorsOf pg x) \<and>
                        depthsOk L pg depthCache \<longrightarrow>
                     fst (getIndentDepth L pg depthCache v) = Num (int (length chain) - 1)))))"
proof -
  have loop: "\<exists>chain pc. ancestorsLoop L pg (parentCache s) (Some x) [] = Some (chain, pc) \<and>
               length chain \<le> Suc (length (ancestorsOf pg x))" for x
    using loop_ends [OF d pa refl, of L x "[]"] by auto
  have "\<exists>r. computeAncestors L pg s v = Some r"
  proof (cases v)
    case (Element x)
    from loop [of x] obtain chain pc where "ancestorsLoop L pg (parentCache s) (Some x) [] = Some (chain, pc)"
      by blast
    with Element show ?thesis
      by (simp add: computeAncestors_def split: option.splits prod.splits)
  qed (simp_all add: computeAncestors_def isCommentThing_def)
  moreover have "\<exists>chain pc. ancestorsLoop L pg (parentCache s) (Some x) [] = Some (chain, pc) \<and>
      length chain \<le> Suc (length (ancestorsOf pg x)) \<and>
      (isCommentThing L pg v \<and> chainCache s x = None \<longrightarrow>
         map_option fst (getDepth L pg s v) = Some (int (length chain) - 1)) \<and>
      (isCommentThing L pg v \<and> parentsOk L pg (parentCache s) \<longrightarrow>
         length chain = Suc (hops L (ancestorsOf pg x)) \<and>
         (\<forall>el. lookup pg x = Some el \<and> regular L el (ancestorsOf pg x) \<and> depthsOk L pg depthCache \<longrightarrow>
            fst (getIndentDepth L pg depthCache v) = Num (int (length chain) - 1)))"
    if v: "v = Element x" for x
  proof -
    from loop [of x] obtain chain pc where
      l: "ancestorsLoop L pg (parentCache s) (Some x) [] = Some (chain, pc)" and
      n: "length chain \<le> Suc (length (ancestorsOf pg x))" by blast
    from loop_longer [OF d pa refl, of L x "[]"] l have ne: "chain \<noteq> []" by auto
    have gd: "map_option fst (getDepth L pg s v) = Some (int (length chain) - 1)"
      if c: "isCommentThing L pg v" and h: "chainCache s x = None"
      using c h l v ne by (simp add: getDepth_def computeAncestors_def newArray_def split_beta)
    have reg: "length chain = Suc (hops L (ancestorsOf pg x)) \<and>
         (\<forall>el. lookup pg x = Some el \<and> regular L el (ancestorsOf pg x) \<and> depthsOk L pg depthCache \<longrightarrow>
            fst (getIndentDepth L pg depthCache v) = Num (int (length chain) - 1))"
      if c: "isCommentThing L pg v" and ok: "parentsOk L pg (parentCache s)"
    proof -
      from c v have cx: "isCommentThing L pg (Element x)" by simp
      from loop_chain [OF d ok refl, of x "[]"] l have ch: "chain = chainOf L pg x" by auto
      from chainOf_length [OF d cx refl] ch have len: "length chain = Suc (hops L (ancestorsOf pg x))"
        by simp
      have "fst (getIndentDepth L pg depthCache v) = Num (int (length chain) - 1)"
        if lk: "lookup pg x = Some el" and r: "regular L el (ancestorsOf pg x)"
          and dok: "depthsOk L pg depthCache" for el
      proof -
        have "fst (getIndentDepth L pg depthCache (Element x)) = indentDepthOf L el (ancestorsOf pg x)"
        proof (cases "depthCache x")
          case None
          with cx lk show ?thesis by (simp add: getIndentDepth_def Let_def)
        next
          case (Some dd)
          with dok obtain el' where "lookup pg x = Some el'" "dd = indentDepthOf L el' (ancestorsOf pg x)"
            unfolding depthsOk_def by blast
          with lk have "dd = indentDepthOf L el (ancestorsOf pg x)" by simp
          with cx Some show ?thesis by (simp add: getIndentDepth_def)
        qed
        with indentDepthOf_regular [OF r] len v show ?thesis by simp
      qed
      with len show ?thesis by blast
    qed
    from gd have gd': "isCommentThing L pg v \<and> chainCache s x = None \<longrightarrow>
         map_option fst (getDepth L pg s v) = Some (int (length chain) - 1)" by blast
    from reg have reg': "isCommentThing L pg v \<and> parentsOk L pg (parentCache s) \<longrightarrow>
         length chain = Suc (hops L (ancestorsOf pg x)) \<and>
         (\<forall>el. lookup pg x = Some el \<and> regular L el (ancestorsOf pg x) \<and> depthsOk L pg depthCache \<longrightarrow>
            fst (getIndentDepth L pg depthCache v) = Num (int (length chain) - 1))" by blast
    from l n gd' reg' show ?thesis by (intro exI [of _ chain] exI [of _ pc] conjI) assumption+
  qed
  ultimately show ?thesis by blast
qed

theorem computeAncestors_terminates_witness:
  "distinct (map eid oldPage) \<and> parentsAbove oldPage (parentCache initialAncestors) \<and>
   isCommentThing OldReddit oldPage (Element 15) \<and> chainCache initialAncestors 15 = None \<and>
   parentsOk OldReddit oldPage (parentCache initialAncestors) \<and>
   (\<exists>el. lookup oldPage 15 = Some el \<and> regular OldReddit el (ancestorsOf oldPage 15)) \<and>
   depthsOk OldReddit oldPage initialDepthCache \<and>
   (\<exists>r. computeAncestors OldReddit oldPage initialAncestors (Element 15) = Some r) \<and>
   (\<exists>chain pc. ancestorsLoop OldReddit oldPage (parentCache initialAncestors) (Some 15) [] = Some (chain, pc) \<and>
      length chain = 3 \<and>
      map_option fst (getDepth OldReddit oldPage initialAncestors (Element 15)) = Some 2 \<and>
      fst (getIndentDepth OldReddit oldPage initialDepthCache (Element 15)) = Num 2)"
proof -
  have h: "chainCache initialAncestors 15 = None" by (simp add: initialAncestors_def)
  from computeAncestors_terminates [OF oldPage_distinct initial_parentsAbove,
      of OldReddit "Element 15" initialDepthCache]
  obtain r chain pc where
    r: "computeAncestors OldReddit oldPage initialAncestors (Element 15) = Some r" and
    l: "ancestorsLoop OldReddit oldPage (parentCache initialAncestors) (Some 15) [] = Some (chain, pc)" and
    g: "isCommentThing OldReddit oldPage (Element 15) \<and> chainCache initialAncestors 15 = None \<longrightarrow>
        map_option fst (getDepth OldReddit oldPage initialAncestors (Element 15)) =
          Some (int (length chain) - 1)" and
    i: "isCommentThing OldReddit oldPage (Element 15) \<and>
        parentsOk OldReddit oldPage (parentCache initialAncestors) \<longrightarrow>
        length chain = Suc (hops OldReddit (ancestorsOf oldPage 15)) \<and>
        (\<forall>el. lookup oldPage 15 = Some el \<and> regular OldReddit el (ancestorsOf oldPage 15) \<and>
              depthsOk OldReddit oldPage initialDepthCache \<longrightarrow>
           fst (getIndentDepth OldReddit oldPage initialDepthCache (Element 15)) =
             Num (int (length chain) - 1))"
    by blast
  from i oldPage_comments(2) initial_parentsOk oldPage_hops have n: "length chain = 3" by simp
  from i oldPage_comments(2) initial_parentsOk oldPage_lookup(2) oldPage_regular initial_depthsOk n
  have dd: "fst (getIndentDepth OldReddit oldPage initialDepthCache (Element 15)) = Num 2" by simp
  from g oldPage_comments(2) h n
  have gd: "map_option fst (getDepth OldReddit oldPage initialAncestors (Element 15)) = Some 2" by simp
  have reg: "\<exists>el. lookup oldPage 15 = Some el \<and> regular OldReddit el (ancestorsOf oldPage 15)"
    using oldPage_lookup(2) oldPage_regular by simp
  from r l n dd gd reg h oldPage_distinct initial_parentsAbove [of oldPage] oldPage_comments(2)
    initial_parentsOk [of OldReddit oldPage] initial_depthsOk [of OldReddit oldPage]
  show ?thesis by blast
qed

subsection \<open>Copies\<close>

text \<open>
  C5: two calls of \<open>computeAncestors\<close> on the same value return two different array
  objects with the same contents. Overwriting either of them leaves the other as it was,
  and a later call still returns the same contents: the cached chain is not touched.
  The page has distinct elements and the caches were filled on it.
\<close>

theorem computeAncestors_copies:
  assumes d: "distinct (map eid pg)" and ok: "cachesOk L pg s"
  shows "\<exists>a1 s1 a2 s2.
     computeAncestors L pg s v = Some (a1, s1) \<and> computeAncestors L pg s1 v = Some (a2, s2) \<and>
     a1 \<noteq> a2 \<and> arrays s2 a1 = arrays s2 a2 \<and>
     (\<forall>ys. arrays (mutate a1 ys s2) a2 = arrays s2 a2 \<and>
           returnedChain (computeAncestors L pg (mutate a1 ys s2) v) = Some (arrays s2 a2)) \<and>
     (\<forall>ys. arrays (mutate a2 ys s2) a1 = arrays s2 a1 \<and>
           returnedChain (computeAncestors L pg (mutate a2 ys s2) v) = Some (arrays s2 a1))"
proof -
  from computeAncestors_frame [OF d ok, of v] obtain a1 s1 where
    c1: "computeAncestors L pg s v = Some (a1, s1)" and v1: "arrays s1 a1 = chainFor L pg v"
    and ok1: "cachesOk L pg s1" and lt1: "a1 < nextAddr s1"
    and cc1: "\<forall>y c. chainCache s1 y = Some c \<longrightarrow> c \<noteq> a1 \<and> (chainCache s y = Some c \<or> nextAddr s \<le> c)"
    by blast
  from computeAncestors_frame [OF d ok1, of v] obtain a2 s2 where
    c2: "computeAncestors L pg s1 v = Some (a2, s2)" and v2: "arrays s2 a2 = chainFor L pg v"
    and ok2: "cachesOk L pg s2" and ge2: "nextAddr s1 \<le> a2"
    and old2: "\<forall>b. b < nextAddr s1 \<longrightarrow> arrays s2 b = arrays s1 b"
    and cc2: "\<forall>y c. chainCache s2 y = Some c \<longrightarrow> c \<noteq> a2 \<and> (chainCache s1 y = Some c \<or> nextAddr s1 \<le> c)"
    by blast
  from lt1 ge2 have ne: "a1 \<noteq> a2" by simp
  from old2 lt1 v1 have v1': "arrays s2 a1 = chainFor L pg v" by simp
  have n1: "\<forall>y. chainCache s2 y \<noteq> Some a1"
  proof (intro allI notI)
    fix y assume "chainCache s2 y = Some a1"
    with cc2 have "chainCache s1 y = Some a1 \<or> nextAddr s1 \<le> a1" by blast
    with cc1 lt1 show False by auto
  qed
  from cc2 have n2: "\<forall>y. chainCache s2 y \<noteq> Some a2" by blast
  have m1: "returnedChain (computeAncestors L pg (mutate a1 ys s2) v) = Some (chainFor L pg v)" for ys
    using computeAncestors_frame [OF d mutate_ok [OF ok2 n1], of ys v]
    by (auto simp: returnedChain_def)
  have m2: "returnedChain (computeAncestors L pg (mutate a2 ys s2) v) = Some (chainFor L pg v)" for ys
    using computeAncestors_frame [OF d mutate_ok [OF ok2 n2], of ys v]
    by (auto simp: returnedChain_def)
  from ne have "arrays (mutate a1 ys s2) a2 = arrays s2 a2" "arrays (mutate a2 ys s2) a1 = arrays s2 a1" for ys
    by (simp_all add: mutate_def)
  with c1 c2 ne v1' v2 m1 m2 show ?thesis by simp
qed

theorem computeAncestors_copies_witness:
  "distinct (map eid oldPage) \<and> cachesOk OldReddit oldPage initialAncestors \<and>
   (\<exists>a1 s1 a2 s2.
     computeAncestors OldReddit oldPage initialAncestors (Element 15) = Some (a1, s1) \<and>
     computeAncestors OldReddit oldPage s1 (Element 15) = Some (a2, s2) \<and>
     a1 \<noteq> a2 \<and> arrays s2 a1 = arrays s2 a2 \<and>
     returnedChain (computeAncestors OldReddit oldPage (mutate a1 [] s2) (Element 15)) = Some (arrays s2 a2))"
proof -
  from computeAncestors_copies [OF oldPage_distinct initial_cachesOk, of OldReddit "Element 15"]
  obtain a1 s1 a2 s2 where
    "computeAncestors OldReddit oldPage initialAncestors (Element 15) = Some (a1, s1)"
    "computeAncestors OldReddit oldPage s1 (Element 15) = Some (a2, s2)"
    "a1 \<noteq> a2" "arrays s2 a1 = arrays s2 a2"
    "\<forall>ys. arrays (mutate a1 ys s2) a2 = arrays s2 a2 \<and>
           returnedChain (computeAncestors OldReddit oldPage (mutate a1 ys s2) (Element 15)) = Some (arrays s2 a2)"
    by blast
  with oldPage_distinct initial_cachesOk [of OldReddit oldPage] show ?thesis by blast
qed

subsection \<open>Chain and depth\<close>

text \<open>
  C1 as stated fails: the comment 11 of \<open>depthAttrPage\<close> is a top-level comment, its chain
  is the comment alone, and \<open>getIndentDepth\<close> returns the 2 of its \<open>depth\<close> attribute.
\<close>

theorem depth_attribute_disagrees:
  "isCommentThing NewReddit depthAttrPage (Element 11) \<and>
   returnedChain (computeAncestors NewReddit depthAttrPage initialAncestors (Element 11)) = Some [11] \<and>
   fst (getIndentDepth NewReddit depthAttrPage initialDepthCache (Element 11)) = Num 2 \<and>
   Num 2 \<noteq> Num (int (length [11 :: nat]) - 1)"
proof -
  have "returnedChain (computeAncestors NewReddit depthAttrPage initialAncestors (Element 11)) = Some [11]"
    by (simp add: returnedChain_def computeAncestors_def depthAttrPage_comment initialAncestors_def
        ancestorsLoop_Some ancestorsLoop_None getParentCached_def getParentThing_def
        depthAttrPage_ancestors mk_def newArray_def isCommentEl.simps toLowerCase_def lowerChar_def
        getAttribute_def Let_def)
  moreover have "fst (getIndentDepth NewReddit depthAttrPage initialDepthCache (Element 11)) = Num 2"
    by (simp add: getIndentDepth_def depthAttrPage_comment initialDepthCache_def depthAttrPage_lookup
        depthAttrPage_ancestors mk_def depthAttribute_def getAttribute_def parseInt10_def
        isWhiteSpace_def isDigit_def digitsValue_def digitOf_def Let_def)
  ultimately show ?thesis using depthAttrPage_comment by simp
qed

text \<open>
  C1, amended: on a page with distinct elements and caches filled on it, for every element
  classified as a comment \<open>computeAncestors\<close> returns a chain that is not empty and ends
  with the element; and where the markup around the element is regular, the length of the
  chain is the depth that \<open>getIndentDepth\<close> returns plus one. Regular markup is what
  \<open>regular\<close> says. In the new layout it asks that \<open>parseInt\<close> reads the \<open>depth\<close>
  attribute, or \<open>0\<close> in place of an absent or empty one, as the number 0 or as the number
  of \<open>shreddit-comment\<close> elements around the comment; an attribute that \<open>parseInt\<close> reads
  as \<open>NaN\<close> or as any other number is not regular.
\<close>

theorem chain_ends_at_node:
  assumes d: "distinct (map eid pg)" and ok: "cachesOk L pg s" and dok: "depthsOk L pg depthCache"
    and c: "isCommentThing L pg v"
  shows "\<exists>a s'. computeAncestors L pg s v = Some (a, s') \<and>
           arrays s' a \<noteq> [] \<and> Element (last (arrays s' a)) = v \<and>
           (\<forall>x el. v = Element x \<longrightarrow> lookup pg x = Some el \<longrightarrow> regular L el (ancestorsOf pg x) \<longrightarrow>
              fst (getIndentDepth L pg depthCache v) = Num (int (length (arrays s' a)) - 1))"
proof -
  from chainFor_Element [OF c] obtain x where v: "v = Element x" and cf: "chainFor L pg v = chainOf L pg x"
    by blast
  from computeAncestors_frame [OF d ok, of v] cf obtain a s' where
    r: "computeAncestors L pg s v = Some (a, s')" and ch: "arrays s' a = chainOf L pg x" by auto
  have "fst (getIndentDepth L pg depthCache v) = Num (int (length (chainOf L pg x)) - 1)"
    if l: "lookup pg x = Some el" and reg: "regular L el (ancestorsOf pg x)" for el
  proof -
    from c v have cx: "isCommentThing L pg (Element x)" by simp
    have "fst (getIndentDepth L pg depthCache (Element x)) = indentDepthOf L el (ancestorsOf pg x)"
    proof (cases "depthCache x")
      case None
      with cx l show ?thesis by (simp add: getIndentDepth_def Let_def)
    next
      case (Some dd)
      with dok obtain el' where "lookup pg x = Some el'" "dd = indentDepthOf L el' (ancestorsOf pg x)"
        unfolding depthsOk_def by blast
      with l have "dd = indentDepthOf L el (ancestorsOf pg x)" by simp
      with cx Some show ?thesis by (simp add: getIndentDepth_def)
    qed
    with indentDepthOf_regular [OF reg] chainOf_length [OF d cx refl] v show ?thesis by simp
  qed
  with r ch v show ?thesis by (simp add: chainOf_ne chainOf_last)
qed

theorem chain_ends_at_node_witness:
  "distinct (map eid oldPage) \<and> cachesOk OldReddit oldPage initialAncestors \<and>
   depthsOk OldReddit oldPage initialDepthCache \<and> isCommentThing OldReddit oldPage (Element 15) \<and>
   (\<exists>el. lookup oldPage 15 = Some el \<and> regular OldReddit el (ancestorsOf oldPage 15)) \<and>
   (\<exists>a s'. computeAncestors OldReddit oldPage initialAncestors (Element 15) = Some (a, s') \<and>
      arrays s' a \<noteq> [] \<and> last (arrays s' a) = 15 \<and>
      fst (getIndentDepth OldReddit oldPage initialDepthCache (Element 15)) =
        Num (int (length (arrays s' a)) - 1))"
proof -
  from chain_ends_at_node [OF oldPage_distinct initial_cachesOk initial_depthsOk oldPage_comments(2)]
  obtain a s' where
    "computeAncestors OldReddit oldPage initialAncestors (Element 15) = Some (a, s')"
    "arrays s' a \<noteq> []" "Element (last (arrays s' a)) = Element 15"
    "\<forall>x el. Element 15 = Element x \<longrightarrow> lookup oldPage x = Some el \<longrightarrow>
        regular OldReddit el (ancestorsOf oldPage x) \<longrightarrow>
        fst (getIndentDepth OldReddit oldPage initialDepthCache (Element 15)) =
          Num (int (length (arrays s' a)) - 1)"
    by blast
  with oldPage_lookup(2) oldPage_regular oldPage_distinct initial_cachesOk [of OldReddit oldPage]
    initial_depthsOk [of OldReddit oldPage] oldPage_comments(2)
  show ?thesis by auto
qed

subsection \<open>The nearest common ancestor\<close>

text \<open>
  C4: on a page with distinct elements and caches filled on it, \<open>findCommonAncestor(a, b)\<close>
  returns an element of both chains or \<open>null\<close>. What it returns is the last element of
  the chain of \<open>b\<close> that is in the chain of \<open>a\<close>, and \<open>null\<close> when the chains share no
  element. It returns \<open>null\<close> exactly when \<open>shareTopLevel(a, b)\<close> is false.
\<close>

theorem findCommonAncestor_nearest:
  assumes d: "distinct (map eid pg)" and ok: "cachesOk L pg s"
  shows "\<exists>r s1 sh s2 chain1 chain2.
      findCommonAncestor L pg s a b = Some (r, s1) \<and> shareTopLevel L pg s a b = Some (sh, s2) \<and>
      returnedChain (computeAncestors L pg s a) = Some chain1 \<and>
      returnedChain (computeAncestors L pg s b) = Some chain2 \<and>
      (case r of
         None \<Rightarrow> set chain1 \<inter> set chain2 = {}
       | Some c \<Rightarrow> c \<in> set chain1 \<and>
           (\<exists>front rear. chain2 = front @ c # rear \<and> set rear \<inter> set chain1 = {})) \<and>
      (r = None \<longleftrightarrow> \<not> sh)"
proof -
  define chain1 where "chain1 = chainFor L pg a"
  define chain2 where "chain2 = chainFor L pg b"
  define r where "r = find (\<lambda>el. el \<in> set chain1) (rev chain2)"
  define t1 where "t1 = (case chain1 of [] \<Rightarrow> None | t # _ \<Rightarrow> Some t)"
  define t2 where "t2 = (case chain2 of [] \<Rightarrow> None | t # _ \<Rightarrow> Some t)"
  from computeAncestors_twice [OF d ok, of a b] obtain a1 s1 a2 s2 where
    "computeAncestors L pg s a = Some (a1, s1)" "computeAncestors L pg s1 b = Some (a2, s2)"
    "arrays s2 a1 = chainFor L pg a" "arrays s2 a2 = chainFor L pg b" by blast
  then have f: "findCommonAncestor L pg s a b = Some (r, s2)"
    by (simp add: findCommonAncestor_def r_def chain1_def chain2_def)
  from topLevel_twice [OF d ok, of a b] obtain s3 where
    sh: "shareTopLevel L pg s a b = Some (t1 \<noteq> None \<and> t1 = t2, s3)"
    by (auto simp: t1_def t2_def chain1_def chain2_def)
  from computeAncestors_frame [OF d ok, of a] have c1: "returnedChain (computeAncestors L pg s a) = Some chain1"
    by (auto simp: returnedChain_def chain1_def)
  from computeAncestors_frame [OF d ok, of b] have c2: "returnedChain (computeAncestors L pg s b) = Some chain2"
    by (auto simp: returnedChain_def chain2_def)
  have near: "(case r of
         None \<Rightarrow> set chain1 \<inter> set chain2 = {}
       | Some c \<Rightarrow> c \<in> set chain1 \<and>
           (\<exists>front rear. chain2 = front @ c # rear \<and> set rear \<inter> set chain1 = {}))"
  proof (cases r)
    case None
    then have "\<forall>y \<in> set chain2. y \<notin> set chain1" by (simp add: r_def find_rev_None)
    with None show ?thesis by auto
  next
    case (Some c)
    then have "find (\<lambda>el. el \<in> set chain1) (rev chain2) = Some c" by (simp add: r_def)
    from find_rev_Some [OF this] obtain front rear where
      "chain2 = front @ c # rear" "c \<in> set chain1" "\<forall>y \<in> set rear. y \<notin> set chain1" by blast
    then have "c \<in> set chain1 \<and> (\<exists>front rear. chain2 = front @ c # rear \<and> set rear \<inter> set chain1 = {})"
      by blast
    with Some show ?thesis by simp
  qed
  have "r = None \<longleftrightarrow> \<not> (t1 \<noteq> None \<and> t1 = t2)"
  proof
    assume n: "r = None"
    with near have e: "set chain1 \<inter> set chain2 = {}" by simp
    show "\<not> (t1 \<noteq> None \<and> t1 = t2)"
    proof
      assume "t1 \<noteq> None \<and> t1 = t2"
      then obtain t where "t1 = Some t" "t2 = Some t" by auto
      then have "t \<in> set chain1" "t \<in> set chain2" by (auto simp: t1_def t2_def split: list.splits)
      with e show False by blast
    qed
  next
    assume s: "\<not> (t1 \<noteq> None \<and> t1 = t2)"
    show "r = None"
    proof (rule ccontr)
      assume "r \<noteq> None"
      then obtain c where "r = Some c" by auto
      with near have c: "c \<in> set chain1" "c \<in> set chain2" by auto
      from chainFor_hd [OF d, of c L a b] c have h: "hd chain1 = hd chain2" by (simp add: chain1_def chain2_def)
      from c obtain u us v vs where "chain1 = u # us" "chain2 = v # vs" by (cases chain1; cases chain2) auto
      with h have "t1 \<noteq> None \<and> t1 = t2" by (simp add: t1_def t2_def)
      with s show False by blast
    qed
  qed
  with f sh c1 c2 near show ?thesis by blast
qed

theorem findCommonAncestor_nearest_witness:
  "distinct (map eid oldPage) \<and> cachesOk OldReddit oldPage initialAncestors \<and>
   (\<exists>r s1 s2.
      findCommonAncestor OldReddit oldPage initialAncestors (Element 15) (Element 16) = Some (r, s1) \<and>
      shareTopLevel OldReddit oldPage initialAncestors (Element 15) (Element 16) = Some (r \<noteq> None, s2))"
proof -
  from findCommonAncestor_nearest [OF oldPage_distinct initial_cachesOk, of OldReddit "Element 15" "Element 16"]
  obtain r s1 sh s2 where
    "findCommonAncestor OldReddit oldPage initialAncestors (Element 15) (Element 16) = Some (r, s1)"
    "shareTopLevel OldReddit oldPage initialAncestors (Element 15) (Element 16) = Some (sh, s2)"
    "r = None \<longleftrightarrow> \<not> sh" by blast
  then have "findCommonAncestor OldReddit oldPage initialAncestors (Element 15) (Element 16) = Some (r, s1) \<and>
      shareTopLevel OldReddit oldPage initialAncestors (Element 15) (Element 16) = Some (r \<noteq> None, s2)"
    by simp
  with oldPage_distinct initial_cachesOk [of OldReddit oldPage] show ?thesis by blast
qed

section \<open>The anchor tracker\<close>

lemma setAnchored_same: "comment = currentAnchored t \<Longrightarrow> setAnchored comment t = Inr t"
  by (simp add: setAnchored_def)

lemma setAnchored_result:
  "\<exists>t'. setAnchored comment t = Inr t' \<and> currentAnchored t' = comment \<and>
        isActive t' = isActive t \<and> onChangeCallback t' = onChangeCallback t"
  by (auto simp: setAnchored_def Let_def split: option.splits outcome.splits)

lemma setAnchored_calls:
  assumes "onChangeCallback t = Some cb" and "comment \<noteq> currentAnchored t"
  shows "\<exists>t'. setAnchored comment t = Inr t' \<and> currentAnchored t' = comment \<and>
           invoked t' = comment # invoked t \<and>
           logged t' = (case cb (comment # invoked t) of Returns \<Rightarrow> logged t | Throws e \<Rightarrow> e # logged t)"
  using assms by (auto simp: setAnchored_def Let_def split: outcome.splits)

lemma clickPage_lookup:
  "lookup clickPage 25 = Some (mk 25 5 ''DIV'' '''' [''arrow'', ''up''] [])"
  "lookup clickPage 28 = Some (mk 28 6 ''P'' '''' [] [])"
  "lookup clickPage 31 = Some (mk 31 5 ''P'' '''' [] [])"
  by (simp_all add: lookup_def clickPage_def mk_def)

lemma clickPage_ancestors:
  "ancestorsOf clickPage 25 =
     [mk 24 4 ''DIV'' '''' [''midcol''] [],
      mk 23 3 ''DIV'' ''thing_t1_x'' [''thing'', ''comment''] [(''data-fullname'', ''t1_x'')],
      mk 22 2 ''DIV'' ''siteTable_t3_x'' [''siteTable'', ''nestedlisting''] [],
      mk 21 1 ''BODY'' '''' [] [],
      mk 20 0 ''HTML'' '''' [] []]"
  "ancestorsOf clickPage 28 =
     [mk 27 5 ''DIV'' '''' [''md''] [],
      mk 26 4 ''DIV'' '''' [''entry''] [],
      mk 23 3 ''DIV'' ''thing_t1_x'' [''thing'', ''comment''] [(''data-fullname'', ''t1_x'')],
      mk 22 2 ''DIV'' ''siteTable_t3_x'' [''siteTable'', ''nestedlisting''] [],
      mk 21 1 ''BODY'' '''' [] [],
      mk 20 0 ''HTML'' '''' [] []]"
  "ancestorsOf clickPage 31 =
     [mk 30 4 ''DIV'' '''' [''entry''] [],
      mk 29 3 ''DIV'' ''thing_t1_y'' [''thing'', ''comment''] [(''data-fullname'', ''t1_y'')],
      mk 22 2 ''DIV'' ''siteTable_t3_x'' [''siteTable'', ''nestedlisting''] [],
      mk 21 1 ''BODY'' '''' [] [],
      mk 20 0 ''HTML'' '''' [] []]"
  by (simp_all add: ancestorsOf_def clickPage_def mk_def)

lemma clickPage_comment:
  "findCommentFromTarget OldReddit clickPage (Some 21) 25 = Some 23"
  "findCommentFromTarget OldReddit clickPage (Some 21) 28 = Some 23"
  "findCommentFromTarget OldReddit clickPage (Some 21) 31 = Some 29"
  by (simp_all add: findCommentFromTarget_def pathOf_def clickPage_lookup clickPage_ancestors
      mk_def isCommentEl.simps hasClass_def)

lemma clickPage_valid:
  "\<not> isValidClickTarget clickPage 25 23"
  "isValidClickTarget clickPage 28 23"
  "isValidClickTarget clickPage 31 29"
  by (simp_all add: isValidClickTarget_def tagNameOf_def closest_def pathOf_def clickPage_lookup
      clickPage_ancestors mk_def matchesVote_def matchesExpand_def hasClass_def getAttribute_def)

lemma idle_active: "isActive idle" "isActive (anchored x)"
  by (simp_all add: idle_def anchored_def)

text \<open>
  C3: while the tracker is active, a valid click on a comment X makes X the anchored
  comment when none or another comment was anchored, and clears the anchor when X was
  anchored; a click inside X on a target that \<open>isValidClickTarget\<close> excludes (a vote
  arrow, a button, an input, a link outside the comment text, an expand control) changes
  nothing. This holds for \<open>handleCommentClick\<close> alone and for the two listeners of a
  click together.
\<close>

theorem anchor_transitions:
  assumes act: "isActive t" and f: "findCommentFromTarget L pg body target = Some x"
  shows "(isValidClickTarget pg target x \<longrightarrow>
            (\<exists>t'. handleCommentClick L pg body target t = Inr t' \<and> click L pg body target t = Inr t' \<and>
               (currentAnchored t = None \<longrightarrow> currentAnchored t' = Some x) \<and>
               (currentAnchored t = Some x \<longrightarrow> currentAnchored t' = None) \<and>
               (\<forall>y. currentAnchored t = Some y \<and> y \<noteq> x \<longrightarrow> currentAnchored t' = Some x))) \<and>
         (\<not> isValidClickTarget pg target x \<longrightarrow>
            handleCommentClick L pg body target t = Inr t \<and> click L pg body target t = Inr t)"
proof (intro conjI impI)
  assume v: "isValidClickTarget pg target x"
  define c where "c = (if Some x = currentAnchored t then None else Some x)"
  from setAnchored_result [of c t] obtain t' where
    s: "setAnchored c t = Inr t'" and a: "currentAnchored t' = c" by blast
  from act f v s have h: "handleCommentClick L pg body target t = Inr t'"
    by (auto simp: handleCommentClick_def c_def split: if_splits)
  from f have "handleDocumentClick L pg body target t' = Inr t'"
    by (simp add: handleDocumentClick_def)
  with h have "click L pg body target t = Inr t'" by (simp add: click_def)
  with h a show "\<exists>t'. handleCommentClick L pg body target t = Inr t' \<and> click L pg body target t = Inr t' \<and>
               (currentAnchored t = None \<longrightarrow> currentAnchored t' = Some x) \<and>
               (currentAnchored t = Some x \<longrightarrow> currentAnchored t' = None) \<and>
               (\<forall>y. currentAnchored t = Some y \<and> y \<noteq> x \<longrightarrow> currentAnchored t' = Some x)"
    by (auto simp: c_def)
next
  assume v: "\<not> isValidClickTarget pg target x"
  with act f show "handleCommentClick L pg body target t = Inr t" by (simp add: handleCommentClick_def)
  moreover from f have "handleDocumentClick L pg body target t = Inr t" by (simp add: handleDocumentClick_def)
  ultimately show "click L pg body target t = Inr t" by (simp add: click_def)
qed

theorem anchor_transitions_witness:
  "isActive idle \<and> findCommentFromTarget OldReddit clickPage (Some 21) 28 = Some 23 \<and>
   isValidClickTarget clickPage 28 23 \<and>
   anchorAfter (click OldReddit clickPage (Some 21) 28 idle) = Some (Some 23) \<and>
   anchorAfter (click OldReddit clickPage (Some 21) 28 (anchored 23)) = Some None \<and>
   anchorAfter (click OldReddit clickPage (Some 21) 31 (anchored 23)) = Some (Some 29) \<and>
   \<not> isValidClickTarget clickPage 25 23 \<and>
   click OldReddit clickPage (Some 21) 25 idle = Inr idle \<and> currentAnchored idle = None"
proof -
  have "anchorAfter (click OldReddit clickPage (Some 21) 28 idle) = Some (Some 23)"
    using anchor_transitions [OF idle_active(1) clickPage_comment(2)] clickPage_valid(2)
    by (auto simp: anchorAfter_def idle_def)
  moreover have "anchorAfter (click OldReddit clickPage (Some 21) 28 (anchored 23)) = Some None"
    using anchor_transitions [OF idle_active(2) clickPage_comment(2), of 23] clickPage_valid(2)
    by (auto simp: anchorAfter_def anchored_def)
  moreover have "anchorAfter (click OldReddit clickPage (Some 21) 31 (anchored 23)) = Some (Some 29)"
    using anchor_transitions [OF idle_active(2) clickPage_comment(3), of 23] clickPage_valid(3)
    by (auto simp: anchorAfter_def anchored_def)
  moreover have "click OldReddit clickPage (Some 21) 25 idle = Inr idle"
    using anchor_transitions [OF idle_active(1) clickPage_comment(1)] clickPage_valid(1)
    by simp
  ultimately show ?thesis
    using idle_active(1) clickPage_comment(2) clickPage_valid(1,2) by (simp add: idle_def)
qed

text \<open>
  C8: a change of the anchored comment is made by \<open>setAnchored\<close>, which calls the
  registered callback once with the new value. When the callback throws, the error is
  passed to \<open>console.error\<close>; the call of \<open>setAnchored\<close>, and with it the click, returns
  to its caller, and the tracker holds the new value. A click either leaves the tracker
  as it was or changes the anchored comment by one such call.
\<close>

theorem callback_invoked_and_caught:
  assumes cb: "onChangeCallback t = Some cb"
  shows "(comment \<noteq> currentAnchored t \<longrightarrow>
            (\<exists>t'. setAnchored comment t = Inr t' \<and> currentAnchored t' = comment \<and>
               invoked t' = comment # invoked t \<and>
               logged t' = (case cb (comment # invoked t) of
                              Returns \<Rightarrow> logged t
                            | Throws error \<Rightarrow> error # logged t))) \<and>
         (\<exists>t'. click L pg body target t = Inr t' \<and>
            (t' = t \<or> (currentAnchored t' \<noteq> currentAnchored t \<and>
                        setAnchored (currentAnchored t') t = Inr t')))"
proof (intro conjI impI)
  assume "comment \<noteq> currentAnchored t"
  from setAnchored_calls [OF cb this]
  show "\<exists>t'. setAnchored comment t = Inr t' \<and> currentAnchored t' = comment \<and>
               invoked t' = comment # invoked t \<and>
               logged t' = (case cb (comment # invoked t) of
                              Returns \<Rightarrow> logged t
                            | Throws error \<Rightarrow> error # logged t)" .
next
  have step: "\<exists>t'. setAnchored c t = Inr t' \<and>
            (t' = t \<or> (currentAnchored t' \<noteq> currentAnchored t \<and>
                        setAnchored (currentAnchored t') t = Inr t'))" for c
  proof (cases "c = currentAnchored t")
    case True
    then show ?thesis by (simp add: setAnchored_same)
  next
    case False
    from setAnchored_result [of c t] obtain t' where "setAnchored c t = Inr t'" "currentAnchored t' = c"
      by blast
    with False show ?thesis by auto
  qed
  show "\<exists>t'. click L pg body target t = Inr t' \<and>
            (t' = t \<or> (currentAnchored t' \<noteq> currentAnchored t \<and>
                        setAnchored (currentAnchored t') t = Inr t'))"
  proof (cases "findCommentFromTarget L pg body target")
    case None
    then have h: "handleCommentClick L pg body target t = Inr t" by (simp add: handleCommentClick_def)
    from step [of None] obtain t' where s: "setAnchored None t = Inr t'"
      and r: "t' = t \<or> (currentAnchored t' \<noteq> currentAnchored t \<and> setAnchored (currentAnchored t') t = Inr t')"
      by blast
    from h None have "click L pg body target t = Inr t \<or> click L pg body target t = setAnchored None t"
      by (simp add: click_def handleDocumentClick_def)
    with s r show ?thesis by auto
  next
    case (Some x)
    then have d: "handleDocumentClick L pg body target u = Inr u" for u
      by (simp add: handleDocumentClick_def)
    from Some have "handleCommentClick L pg body target t = Inr t \<or>
        handleCommentClick L pg body target t = setAnchored None t \<or>
        handleCommentClick L pg body target t = setAnchored (Some x) t"
      by (simp add: handleCommentClick_def)
    with step [of None] step [of "Some x"] d show ?thesis by (auto simp: click_def)
  qed
qed

theorem callback_invoked_and_caught_witness:
  "onChangeCallback idle = Some throwing \<and>
   (\<exists>t'. click OldReddit clickPage (Some 21) 28 idle = Inr t' \<and>
      currentAnchored t' = Some 23 \<and> invoked t' = [Some 23] \<and> logged t' = [''boom''])"
proof -
  have cb: "onChangeCallback idle = Some throwing" by (simp add: idle_def)
  have ne: "Some 23 \<noteq> currentAnchored idle" by (simp add: idle_def)
  from callback_invoked_and_caught [OF cb, of "Some 23" OldReddit clickPage "Some 21" 28] ne
  obtain t1 t2 where
    s: "setAnchored (Some 23) idle = Inr t1" "currentAnchored t1 = Some 23"
       "invoked t1 = Some 23 # invoked idle"
       "logged t1 = (case throwing (Some 23 # invoked idle) of
                       Returns \<Rightarrow> logged idle | Throws error \<Rightarrow> error # logged idle)" and
    c: "click OldReddit clickPage (Some 21) 28 idle = Inr t2"
    by blast
  have "click OldReddit clickPage (Some 21) 28 idle = setAnchored (Some 23) idle"
    using clickPage_comment(2) clickPage_valid(2)
    by (simp add: click_def handleCommentClick_def handleDocumentClick_def idle_def setAnchored_def
        throwing_def)
  with s c have "t2 = t1" by simp
  with s c cb show ?thesis by (simp add: idle_def throwing_def)
qed

section \<open>The excerpt\<close>

lemma trim_length: "length (trim text) \<le> length text"
proof -
  have "length (dropWhile trimmed (rev (dropWhile trimmed text))) \<le> length (rev (dropWhile trimmed text))"
    by (rule length_dropWhile_le)
  also have "\<dots> \<le> length text" by (simp add: length_dropWhile_le)
  finally show ?thesis by (simp add: trim_def)
qed

lemma excerpt_short:
  "length text \<le> 150 \<Longrightarrow> excerptOf (Some text) = trim text"
  using trim_length [of "text"] by (simp add: excerptOf_def Let_def)

lemma excerpt_long:
  "length (trim text) > 150 \<Longrightarrow> excerptOf (Some text) = take 150 (trim text) @ dots"
  using trim_length [of "text"] by (simp add: excerptOf_def Let_def)

lemma trim_letters_newline:
  assumes "0 < n"
  shows "trim (replicate n 97 @ [10]) = replicate n 97"
proof -
  have t: "trimmed 10" "\<not> trimmed 97" by (simp_all add: trimmed_def)
  from assms obtain m where n: "n = Suc m" by (cases n) auto
  have 1: "dropWhile trimmed (replicate n 97 @ [10]) = replicate n 97 @ [10]"
    using t by (simp add: n)
  have 2: "rev (replicate n 97 @ [10]) = 10 # replicate n 97" by simp
  have 3: "dropWhile trimmed (10 # replicate n 97) = replicate n 97"
    using t by (simp add: n)
  show ?thesis by (simp only: trim_def 1 2 3 rev_replicate)
qed

lemma trim_letters_newlines:
  shows "trim (replicate (Suc n) 97 @ [10, 10]) = replicate (Suc n) 97"
proof -
  have t: "trimmed 10" "\<not> trimmed 97" by (simp_all add: trimmed_def)
  have 1: "dropWhile trimmed (replicate (Suc n) 97 @ [10, 10]) = replicate (Suc n) 97 @ [10, 10]"
    using t by simp
  have 2: "rev (replicate (Suc n) 97 @ [10, 10]) = 10 # 10 # replicate (Suc n) (97 :: nat)"
    by (simp add: replicate_append_same)
  have 3: "dropWhile trimmed (10 # 10 # replicate (Suc n) 97) = replicate (Suc n) 97"
    using t by simp
  show ?thesis by (simp only: trim_def 1 2 3 rev_replicate)
qed

text \<open>
  C2 fails on the code. The body text of 149 letters \<open>a\<close> and two line feeds has 151
  code units. The excerpt is the trimmed text, 149 letters, of which nothing is cut, and
  the marker is appended all the same: the test for the marker reads the length of the
  text before trimming.
\<close>

theorem excerpt_marker_without_truncation:
  "trim (replicate 149 97 @ [10, 10]) = replicate 149 97 \<and>
   take 150 (replicate 149 97) = replicate 149 (97 :: nat) \<and>
   excerptOf (Some (replicate 149 97 @ [10, 10])) = replicate 149 97 @ dots"
proof -
  have "trim (replicate (Suc 148) 97 @ [10, 10]) = replicate (Suc 148) 97"
    by (rule trim_letters_newlines)
  then have "trim (replicate 149 97 @ [10, 10]) = replicate 149 97" by simp
  then show ?thesis by (simp add: excerptOf_def)
qed

section \<open>The renderer\<close>

subsection \<open>Splitting the page at an element\<close>









lemma enclosing_set: "set (enclosing l xs) \<subseteq> set xs"
  by (induction xs arbitrary: l) (auto split: if_splits)

subsection \<open>Changes that keep identity and level\<close>

lemma map_locate:
  assumes "\<And>e. eid (f e) = eid e"
  shows "locate x (map f acc) (map f pg) = map_option (map_prod f (map f)) (locate x acc pg)"
proof (induction pg arbitrary: acc)
  case Nil
  then show ?case by simp
next
  case (Cons a pg)
  from Cons.IH [of "a # acc"] assms show ?case by simp
qed

lemma map_lookup:
  assumes "\<And>e. eid (f e) = eid e"
  shows "lookup (map f pg) x = map_option f (lookup pg x)"
  using map_locate [of f x "[]" pg, OF assms]
  by (simp add: lookup_def option.map_comp comp_def)

lemma map_following:
  assumes "\<And>e. eid (f e) = eid e"
  shows "following x (map f pg) = map f (following x pg)"
  by (simp add: following_def dropWhile_map comp_def assms drop_map)

lemma map_preceding:
  assumes "\<And>e. eid (f e) = eid e"
  shows "preceding x (map f pg) = map f (preceding x pg)"
  by (simp add: preceding_def takeWhile_map comp_def assms)

lemma map_descendants:
  assumes "\<And>e. eid (f e) = eid e" and "\<And>e. level (f e) = level e"
  shows "descendantsOf (map f pg) x = map f (descendantsOf pg x)"
  by (cases "lookup pg x")
     (simp_all add: descendantsOf_def map_lookup [of f, OF assms(1)] map_following [of f, OF assms(1)]
        takeWhile_map comp_def assms(2))




subsection \<open>The document holds what is inside its elements\<close>



subsection \<open>Removing an element\<close>








subsection \<open>Inserting the icon\<close>



lemma newIcon_simps [simp]:
  "eid (newIcon i l) = i" "level (newIcon i l) = l"
  "hasClass ''ta-active-icon'' (newIcon i l)" "\<not> hasClass ''ta-active-comment'' (newIcon i l)"
  by (simp_all add: newIcon_def hasClass_def)








subsection \<open>Adding and removing the class\<close>

lemma find_map: "find P (map f xs) = map_option f (find (\<lambda>x. P (f x)) xs)"
  by (induction xs) simp_all



lemma map_query:
  assumes "\<And>e. eid (f e) = eid e" and "\<And>e. level (f e) = level e"
    and "\<And>e. hasClass c (f e) = hasClass c e"
  shows "querySelectorClass (map f pg) x c = map_option f (querySelectorClass pg x c)"
  by (simp add: querySelectorClass_def map_descendants [of f, OF assms(1,2)] find_map assms(3))

lemma remove_class [simp]:
  "eid (if eid e = c then e\<lparr>classList := removeAll m (classList e)\<rparr> else e) = eid e"
  "level (if eid e = c then e\<lparr>classList := removeAll m (classList e)\<rparr> else e) = level e"
  by simp_all

lemma add_class [simp]:
  "eid (if eid e = n \<and> m \<notin> set (classList e) then e\<lparr>classList := classList e @ [m]\<rparr> else e) = eid e"
  "level (if eid e = n \<and> m \<notin> set (classList e) then e\<lparr>classList := classList e @ [m]\<rparr> else e) = level e"
  by simp_all


lemma classListRemove_query:
  "map_option eid (querySelectorClass (classListRemove c ''ta-active-comment'' pg) x ''ta-active-icon'') =
   map_option eid (querySelectorClass pg x ''ta-active-icon'')"
proof -
  let ?f = "\<lambda>e. if eid e = c then e\<lparr>classList := removeAll ''ta-active-comment'' (classList e)\<rparr> else e"
  have e: "\<And>e. eid (?f e) = eid e" and l: "\<And>e. level (?f e) = level e" by simp_all
  have i: "\<And>e. hasClass ''ta-active-icon'' (?f e) = hasClass ''ta-active-icon'' e"
    by (simp add: hasClass_def)
  show ?thesis unfolding classListRemove_def
    by (simp add: map_query [of ?f, OF e l i] option.map_comp comp_def)
qed


lemma classListAdd_query:
  "map_option eid (querySelectorClass (classListAdd n ''ta-active-comment'' pg) x ''ta-active-icon'') =
   map_option eid (querySelectorClass pg x ''ta-active-icon'')"
proof -
  let ?f = "\<lambda>e. if eid e = n \<and> ''ta-active-comment'' \<notin> set (classList e)
                 then e\<lparr>classList := classList e @ [''ta-active-comment'']\<rparr> else e"
  have e: "\<And>e. eid (?f e) = eid e" and l: "\<And>e. level (?f e) = level e" by simp_all
  have i: "\<And>e. hasClass ''ta-active-icon'' (?f e) = hasClass ''ta-active-icon'' e"
    by (simp add: hasClass_def)
  show ?thesis unfolding classListAdd_def
    by (simp add: map_query [of ?f, OF e l i] option.map_comp comp_def)
qed

subsection \<open>The two steps of the highlight\<close>















lemma markerAt_clean:
  assumes "distinct (map eid pg)" and "markedElements pg = []" and "documentIcons pg = []"
  shows "markerAt pg new"
  using assms by (simp add: markerAt_def)













lemma unmarked_simps [simp]:
  "eid (unmarked e) = eid e"
  "unmarked (e\<lparr>level := l\<rparr>) = unmarked e"
  "unmarked (e\<lparr>classList := removeAll ''ta-active-comment'' (classList e)\<rparr>) = unmarked e"
  "unmarked (e\<lparr>classList := classList e @ [''ta-active-comment'']\<rparr>) = unmarked e"
  by (simp_all add: unmarked_def)


lemma unmarked_attribute [simp]:
  "getAttribute (unmarked e) n = getAttribute e n" "elemId (unmarked e) = elemId e"
  by (simp_all add: unmarked_def getAttribute_def)










subsection \<open>The highlight keeps the elements\<close>








subsection \<open>render\<close>

lemma updateActiveHighlight_fields [simp]:
  "containerEl (updateActiveHighlight a s) = containerEl s"
  "isActiveUI (updateActiveHighlight a s) = isActiveUI s"
  "configDepth (updateActiveHighlight a s) = configDepth s"
  "configCompact (updateActiveHighlight a s) = configCompact s"
  "currentChainIds (updateActiveHighlight a s) = currentChainIds s"
  "idCache (updateActiveHighlight a s) = idCache s"
  "currentActiveComment (updateActiveHighlight a s) = a"
  by (simp_all add: updateActiveHighlight_def)














lemma oldPage_unmarked: "markedElements oldPage = []" "documentIcons oldPage = []"
  by (simp_all add: markedElements_def documentIcons_def documentElements_def oldPage_def mk_def
      hasClass_def)

lemma uiShown_ok: "markerOk uiShown"
  by (simp add: markerOk_def uiShown_def markerAt_clean oldPage_distinct oldPage_unmarked)








section \<open>The header\<close>



section \<open>The marker of the active comment\<close>





end
